theory Spec2Isabelle
  imports Main "HOL-Library.Word"
begin

unbundle bit_operations_syntax

section \<open>Character sets\<close>

text \<open>
  \<^verbatim>\<open>class character_set\<close> of \<^verbatim>\<open>stringzilla.hpp\<close> wraps a
  \<^verbatim>\<open>sz_u8_set_t\<close>, a union whose member \<^verbatim>\<open>_u64s\<close> is an array of four
  64-bit words: one bit per byte value. Bytes are HOL characters (8 bits, read
  unsigned through \<open>of_char\<close>), and a byte string is a \<open>string\<close>.
\<close>

record character_set =
  bitset :: "64 word list"

text \<open>The default constructor: the four words are zeroed.\<close>

definition character_set_init :: character_set where
  "character_set_init = \<lparr>bitset = [0, 0, 0, 0]\<rparr>"

text \<open>
  \<^verbatim>\<open>bitset_._u64s[c >> 6] |= (1ull << (c & 63u))\<close>: the statement of both
  constructors from characters, which by their own comment re-implement
  \<^verbatim>\<open>sz_u8_set_add\<close>, the body of \<^verbatim>\<open>add\<close>. The byte is read unsigned. That is
  what the statement computes for every byte below \<open>0x80\<close>, and for every byte
  where \<^verbatim>\<open>char\<close> is unsigned; where \<^verbatim>\<open>char\<close> is signed, a byte from \<open>0x80\<close>
  on makes \<^verbatim>\<open>c >> 6\<close> negative, an index outside \<^verbatim>\<open>_u64s\<close>, and the
  definition does not describe that case.
\<close>

definition add :: "character_set \<Rightarrow> char \<Rightarrow> character_set" where
  "add s c =
     (let i = drop_bit 6 (of_char c :: nat);
          b = (of_char c :: nat) AND 63
      in s\<lparr>bitset := (bitset s)[i := (bitset s ! i) OR push_bit b 1]\<rparr>)"

text \<open>
  The initializer-list constructor, lines 153-156: start from the empty set and
  set the bit of every listed byte.
\<close>

definition character_set_of :: "string \<Rightarrow> character_set" where
  "character_set_of chars = foldl add character_set_init chars"

text \<open>
  The constructor from an array, lines 157-164: its loop runs over
  \<^verbatim>\<open>i < count_characters - 1\<close>, so the last element of the array (the null
  terminator of a string literal) sets no bit. The array is not empty, by the
  \<^verbatim>\<open>static_assert\<close>.
\<close>

definition character_set_of_array :: "string \<Rightarrow> character_set" where
  "character_set_of_array chars = foldl add character_set_init (butlast chars)"

text \<open>
  Modelled from the spec: \<^verbatim>\<open>sz_u8_set_contains\<close> of \<^verbatim>\<open>stringzilla.h\<close> is
  not among the sources. Spec section 4.1 has \<^verbatim>\<open>contains(byte) -> bool\<close> as the
  membership test of the 256-bit table; the bit read is the one the constructors
  set.
\<close>

definition contains :: "character_set \<Rightarrow> char \<Rightarrow> bool" where
  "contains s c = bit (bitset s ! drop_bit 6 (of_char c :: nat)) ((of_char c :: nat) AND 63)"

text \<open>
  Modelled from the spec: \<^verbatim>\<open>sz_u8_set_invert\<close> of \<^verbatim>\<open>stringzilla.h\<close> is not
  among the sources. Spec section 4.1: \<^verbatim>\<open>inverted()\<close> is the complement of all
  256 bits. The method copies \<^verbatim>\<open>*this\<close>, inverts the copy and returns the copy.
\<close>

definition inverted :: "character_set \<Rightarrow> character_set" where
  "inverted s = (let result = s in result\<lparr>bitset := map NOT (bitset result)\<rparr>)"

text \<open>
  \<^verbatim>\<open>character_set operator|(character_set other) const\<close>, lines 172-177:
  \<^verbatim>\<open>result\<close> is a copy of \<^verbatim>\<open>*this\<close>, the four words of \<^verbatim>\<open>other\<close> are
  or-ed into \<^verbatim>\<open>result\<close>, and the function ends with \<^verbatim>\<open>return *this;\<close>.
  The method is const and takes \<^verbatim>\<open>other\<close> by value, so neither operand
  changes; the model is the returned set.
\<close>

definition character_set_or :: "character_set \<Rightarrow> character_set \<Rightarrow> character_set" where
  "character_set_or this other =
     (let result = this;
          result = result\<lparr>bitset := (bitset result)[0 := bitset result ! 0 OR bitset other ! 0]\<rparr>;
          result = result\<lparr>bitset := (bitset result)[1 := bitset result ! 1 OR bitset other ! 1]\<rparr>;
          result = result\<lparr>bitset := (bitset result)[2 := bitset result ! 2 OR bitset other ! 2]\<rparr>;
          result = result\<lparr>bitset := (bitset result)[3 := bitset result ! 3 OR bitset other ! 3]\<rparr>
      in this)"

lemma character_set_or_returns_receiver: "character_set_or a b = a"
  by (simp add: character_set_or_def Let_def)

lemma contains_init: "\<not> contains character_set_init c"
proof -
  have "(of_char c :: nat) < 256" by simp
  then have "drop_bit 6 (of_char c :: nat) < 4"
    unfolding drop_bit_eq_div by (simp add: less_mult_imp_div_less)
  then have "bitset character_set_init ! drop_bit 6 (of_char c :: nat) = 0"
    by (auto simp: character_set_init_def less_Suc_eq numeral_eq_Suc nth_Cons split: nat.splits)
  then show ?thesis by (simp add: contains_def)
qed

text \<open>
  C3. The claim: the set returned by \<^verbatim>\<open>A | B\<close> contains a byte iff \<^verbatim>\<open>A\<close>
  or \<^verbatim>\<open>B\<close> does. The code returns its receiver: with \<^verbatim>\<open>A\<close> empty and
  \<^verbatim>\<open>B = {'a'}\<close>, the byte \<^verbatim>\<open>'a'\<close> is in \<^verbatim>\<open>B\<close> and not in the returned
  set.
\<close>

theorem character_set_or_loses_other:
  "contains (character_set_of ''a'') CHR ''a''
   \<and> \<not> contains (character_set_or character_set_init (character_set_of ''a'')) CHR ''a''"
proof -
  have "contains (character_set_of ''a'') CHR ''a''"
    by (simp add: character_set_of_def add_def contains_def character_set_init_def Let_def)
  then show ?thesis
    by (simp add: character_set_or_returns_receiver contains_init)
qed


section \<open>String views\<close>

text \<open>
  \<^verbatim>\<open>class string_view\<close> holds \<^verbatim>\<open>start_\<close> (a \<^verbatim>\<open>char const *\<close>) and
  \<^verbatim>\<open>length_\<close> (a \<^verbatim>\<open>size_t\<close>). Memory is one flat byte string and a pointer is
  an index into it, so that two views can be compared by address as the
  iterators do; \<^verbatim>\<open>nullptr\<close> is address 0, which is read only through views
  of length 0. \<^verbatim>\<open>npos\<close>, the value \<^verbatim>\<open>size_type(-1)\<close> that a search returns
  for a missing match, is \<open>None\<close>.
\<close>

record string_view =
  sv_start :: nat
  sv_length :: nat

definition string_view_init :: string_view where
  "string_view_init = \<lparr>sv_start = 0, sv_length = 0\<rparr>"

text \<open>The bytes a view denotes in a memory, and the views that lie inside it.\<close>

definition view_bytes :: "string \<Rightarrow> string_view \<Rightarrow> string" where
  "view_bytes mem v = take (sv_length v) (drop (sv_start v) mem)"

definition view_in :: "string \<Rightarrow> string_view \<Rightarrow> bool" where
  "view_in mem v = (sv_start v + sv_length v \<le> length mem \<and> length mem < 2 ^ 64)"

text \<open>Subtraction of two \<^verbatim>\<open>size_t\<close> values wraps around modulo \<open>2 ^ 64\<close>.\<close>

definition size_sub :: "nat \<Rightarrow> nat \<Rightarrow> nat" where
  "size_sub a b = (a + 2 ^ 64 - b mod 2 ^ 64) mod 2 ^ 64"

definition sv_begin :: "string_view \<Rightarrow> nat" where
  "sv_begin v = sv_start v"

definition sv_end :: "string_view \<Rightarrow> nat" where
  "sv_end v = sv_start v + sv_length v"

definition sv_empty :: "string_view \<Rightarrow> bool" where
  "sv_empty v = (sv_length v = 0)"

text \<open>
  \<^verbatim>\<open>remove_prefix(n)\<close> and \<^verbatim>\<open>remove_suffix(n)\<close> begin with
  \<^verbatim>\<open>assert(n <= size())\<close>; a failed assertion is \<open>None\<close>.
\<close>

definition remove_prefix :: "nat \<Rightarrow> string_view \<Rightarrow> string_view option" where
  "remove_prefix n v =
     (if n \<le> sv_length v
      then Some \<lparr>sv_start = sv_start v + n, sv_length = sv_length v - n\<rparr>
      else None)"

definition remove_suffix :: "nat \<Rightarrow> string_view \<Rightarrow> string_view option" where
  "remove_suffix n v =
     (if n \<le> sv_length v
      then Some \<lparr>sv_start = sv_start v, sv_length = sv_length v - n\<rparr>
      else None)"

text \<open>
  The three overloads of \<^verbatim>\<open>substr\<close>: \<^verbatim>\<open>substr()\<close>, \<^verbatim>\<open>substr(pos)\<close> and
  \<^verbatim>\<open>substr(pos, count)\<close>, the last one
  \<^verbatim>\<open>string_view(start_ + pos, sz_min_of_two(count, length_ - pos))\<close>.
\<close>

definition substr :: "string_view \<Rightarrow> string_view" where
  "substr v = v"

definition substr_pos :: "string_view \<Rightarrow> nat \<Rightarrow> string_view" where
  "substr_pos v pos = \<lparr>sv_start = sv_start v + pos, sv_length = size_sub (sv_length v) pos\<rparr>"

definition substr_pos_count :: "string_view \<Rightarrow> nat \<Rightarrow> nat \<Rightarrow> string_view" where
  "substr_pos_count v pos count =
     \<lparr>sv_start = sv_start v + pos, sv_length = min count (size_sub (sv_length v) pos)\<rparr>"

subsection \<open>The byte-level search primitives\<close>

text \<open>
  Modelled from the spec: \<^verbatim>\<open>sz_find\<close> of \<^verbatim>\<open>stringzilla.h\<close> (the byte-level
  primitive engine) is not among the sources. Spec section 6: forward substring
  search takes haystack and needle and returns the first occurrence or
  not-found. The result is the offset of the occurrence; an empty needle has no
  occurrence.
\<close>

fun sz_find :: "string \<Rightarrow> string \<Rightarrow> nat option" where
  "sz_find [] n = None"
| "sz_find (c # h) n =
     (if n \<noteq> [] \<and> take (length n) (c # h) = n then Some 0
      else map_option Suc (sz_find h n))"

text \<open>
  Modelled from the spec: \<^verbatim>\<open>sz_find_last\<close> of \<^verbatim>\<open>stringzilla.h\<close> is not among
  the sources. Spec section 6: backward substring search mirrors the forward
  one and returns the last occurrence.
\<close>

fun sz_find_last :: "string \<Rightarrow> string \<Rightarrow> nat option" where
  "sz_find_last [] n = None"
| "sz_find_last (c # h) n =
     (case sz_find_last h n of
        Some p \<Rightarrow> Some (Suc p)
      | None \<Rightarrow> if n \<noteq> [] \<and> take (length n) (c # h) = n then Some 0 else None)"

text \<open>
  Modelled from the spec: \<^verbatim>\<open>sz_find_from_set\<close> and
  \<^verbatim>\<open>sz_find_last_from_set\<close> of \<^verbatim>\<open>stringzilla.h\<close> are not among the sources.
  Spec section 6: set search, forward or backward, returns the first or the last
  byte of the haystack that is a member of the set, or not-found.
\<close>

fun sz_find_from_set :: "string \<Rightarrow> character_set \<Rightarrow> nat option" where
  "sz_find_from_set [] s = None"
| "sz_find_from_set (c # h) s =
     (if contains s c then Some 0 else map_option Suc (sz_find_from_set h s))"

fun sz_find_last_from_set :: "string \<Rightarrow> character_set \<Rightarrow> nat option" where
  "sz_find_last_from_set [] s = None"
| "sz_find_last_from_set (c # h) s =
     (case sz_find_last_from_set h s of
        Some p \<Rightarrow> Some (Suc p)
      | None \<Rightarrow> if contains s c then Some 0 else None)"

subsection \<open>Searching a view\<close>

text \<open>
  \<^verbatim>\<open>find(string_view)\<close>: \<^verbatim>\<open>ptr ? ptr - start_ : npos\<close> for the pointer
  \<^verbatim>\<open>sz_find\<close> returns; likewise \<^verbatim>\<open>rfind\<close> with \<^verbatim>\<open>sz_find_last\<close>, and the
  searches for a member of a character set.
\<close>

definition sv_find :: "string \<Rightarrow> string_view \<Rightarrow> string_view \<Rightarrow> nat option" where
  "sv_find mem v other = sz_find (view_bytes mem v) (view_bytes mem other)"

definition sv_rfind :: "string \<Rightarrow> string_view \<Rightarrow> string_view \<Rightarrow> nat option" where
  "sv_rfind mem v other = sz_find_last (view_bytes mem v) (view_bytes mem other)"

definition find_first_of :: "string \<Rightarrow> string_view \<Rightarrow> character_set \<Rightarrow> nat option" where
  "find_first_of mem v s = sz_find_from_set (view_bytes mem v) s"

definition find_first_not_of :: "string \<Rightarrow> string_view \<Rightarrow> character_set \<Rightarrow> nat option" where
  "find_first_not_of mem v s = find_first_of mem v (inverted s)"

definition find_last_of :: "string \<Rightarrow> string_view \<Rightarrow> character_set \<Rightarrow> nat option" where
  "find_last_of mem v s = sz_find_last_from_set (view_bytes mem v) s"

definition find_last_not_of :: "string \<Rightarrow> string_view \<Rightarrow> character_set \<Rightarrow> nat option" where
  "find_last_not_of mem v s = find_last_of mem v (inverted s)"

subsection \<open>Partition\<close>

record string_partition_result =
  before :: string_view
  match :: string_view
  after :: string_view

text \<open>
  The private templates \<^verbatim>\<open>split_\<close> (it calls \<^verbatim>\<open>find\<close>) and \<^verbatim>\<open>rsplit_\<close>
  (it calls \<^verbatim>\<open>rfind\<close>), instantiated for a pattern that is a view; they are
  \<open>split_impl\<close> and \<open>rsplit_impl\<close> here.
\<close>

definition split_impl :: "string \<Rightarrow> string_view \<Rightarrow> string_view \<Rightarrow> nat \<Rightarrow> string_partition_result" where
  "split_impl mem v pattern pattern_length =
     (case sv_find mem v pattern of
        None \<Rightarrow> \<lparr>before = substr v, match = string_view_init, after = string_view_init\<rparr>
      | Some pos \<Rightarrow>
          \<lparr>before = substr_pos_count v 0 pos,
           match = substr_pos_count v pos pattern_length,
           after = substr_pos v (pos + pattern_length)\<rparr>)"

definition rsplit_impl :: "string \<Rightarrow> string_view \<Rightarrow> string_view \<Rightarrow> nat \<Rightarrow> string_partition_result" where
  "rsplit_impl mem v pattern pattern_length =
     (case sv_rfind mem v pattern of
        None \<Rightarrow> \<lparr>before = substr v, match = string_view_init, after = string_view_init\<rparr>
      | Some pos \<Rightarrow>
          \<lparr>before = substr_pos_count v 0 pos,
           match = substr_pos_count v pos pattern_length,
           after = substr_pos v (pos + pattern_length)\<rparr>)"

text \<open>
  \<^verbatim>\<open>partition(string_view pattern)\<close> returns
  \<^verbatim>\<open>split_(pattern, pattern.length())\<close>, and so does
  \<^verbatim>\<open>rpartition(string_view pattern)\<close>, lines 1122 and 1128; \<^verbatim>\<open>rsplit_\<close> has
  no caller.
\<close>

definition sv_partition :: "string \<Rightarrow> string_view \<Rightarrow> string_view \<Rightarrow> string_partition_result" where
  "sv_partition mem v pattern = split_impl mem v pattern (sv_length pattern)"

definition sv_rpartition :: "string \<Rightarrow> string_view \<Rightarrow> string_view \<Rightarrow> string_partition_result" where
  "sv_rpartition mem v pattern = split_impl mem v pattern (sv_length pattern)"


section \<open>Matchers and lazy ranges\<close>

text \<open>
  The six matcher structs. \<^verbatim>\<open>matcher_find\<close> and \<^verbatim>\<open>matcher_rfind\<close> hold
  \<^verbatim>\<open>needle_\<close> and \<^verbatim>\<open>skip_after_match_\<close>; the four set matchers, in their
  specialisations for \<^verbatim>\<open>string_view\<close>, hold \<^verbatim>\<open>needles_set_\<close>. The ranges are
  templates over the matcher; the template parameter is a value of this type.
\<close>

datatype matcher =
    Matcher_find string_view nat
  | Matcher_rfind string_view nat
  | Matcher_find_first_of character_set
  | Matcher_find_last_of character_set
  | Matcher_find_first_not_of character_set
  | Matcher_find_last_not_of character_set

text \<open>
  The constructors \<^verbatim>\<open>matcher_find(needle, allow_overlaps)\<close> and
  \<^verbatim>\<open>matcher_rfind(needle, allow_overlaps)\<close>:
  \<^verbatim>\<open>skip_after_match_(allow_overlaps ? 1 : needle_.length())\<close>.
\<close>

definition matcher_find :: "string_view \<Rightarrow> bool \<Rightarrow> matcher" where
  "matcher_find needle allow_overlaps =
     Matcher_find needle (if allow_overlaps then 1 else sv_length needle)"

definition matcher_rfind :: "string_view \<Rightarrow> bool \<Rightarrow> matcher" where
  "matcher_rfind needle allow_overlaps =
     Matcher_rfind needle (if allow_overlaps then 1 else sv_length needle)"

fun needle_length :: "matcher \<Rightarrow> nat" where
  "needle_length (Matcher_find needle skip) = sv_length needle"
| "needle_length (Matcher_rfind needle skip) = sv_length needle"
| "needle_length (Matcher_find_first_of s) = 1"
| "needle_length (Matcher_find_last_of s) = 1"
| "needle_length (Matcher_find_first_not_of s) = 1"
| "needle_length (Matcher_find_last_not_of s) = 1"

fun skip_length :: "matcher \<Rightarrow> nat" where
  "skip_length (Matcher_find needle skip) = skip"
| "skip_length (Matcher_rfind needle skip) = skip"
| "skip_length (Matcher_find_first_of s) = 1"
| "skip_length (Matcher_find_last_of s) = 1"
| "skip_length (Matcher_find_first_not_of s) = 1"
| "skip_length (Matcher_find_last_not_of s) = 1"

text \<open>\<^verbatim>\<open>operator()(haystack)\<close> of each matcher.\<close>

fun locate :: "string \<Rightarrow> matcher \<Rightarrow> string_view \<Rightarrow> nat option" where
  "locate mem (Matcher_find needle skip) haystack = sv_find mem haystack needle"
| "locate mem (Matcher_rfind needle skip) haystack = sv_rfind mem haystack needle"
| "locate mem (Matcher_find_first_of s) haystack = find_first_of mem haystack s"
| "locate mem (Matcher_find_last_of s) haystack = find_last_of mem haystack s"
| "locate mem (Matcher_find_first_not_of s) haystack = find_first_not_of mem haystack s"
| "locate mem (Matcher_find_last_not_of s) haystack = find_last_not_of mem haystack s"

subsection \<open>Match ranges\<close>

text \<open>
  \<^verbatim>\<open>range_matches::iterator\<close> and \<^verbatim>\<open>range_rmatches::iterator\<close> have the same
  two members, \<^verbatim>\<open>matcher_\<close> and \<^verbatim>\<open>remaining_\<close>.
\<close>

record match_iterator =
  mi_matcher :: matcher
  mi_remaining :: string_view

text \<open>
  The constructor of \<^verbatim>\<open>range_matches::iterator\<close>, lines 330-333: locate the
  first match and drop the prefix before it, or everything when there is none.
\<close>

definition matches_iterator :: "string \<Rightarrow> string_view \<Rightarrow> matcher \<Rightarrow> match_iterator option" where
  "matches_iterator mem haystack m =
     (let remaining = haystack;
          position = locate mem m remaining
      in map_option (\<lambda>r. \<lparr>mi_matcher = m, mi_remaining = r\<rparr>)
           (remove_prefix (case position of Some p \<Rightarrow> p | None \<Rightarrow> sv_length remaining) remaining))"

definition matches_deref :: "match_iterator \<Rightarrow> string_view" where
  "matches_deref it = substr_pos_count (mi_remaining it) 0 (needle_length (mi_matcher it))"

text \<open>\<^verbatim>\<open>operator++\<close>, lines 337-342.\<close>

definition matches_increment :: "string \<Rightarrow> match_iterator \<Rightarrow> match_iterator option" where
  "matches_increment mem it =
     (case remove_prefix (skip_length (mi_matcher it)) (mi_remaining it) of
        None \<Rightarrow> None
      | Some remaining \<Rightarrow>
          (let position = locate mem (mi_matcher it) remaining
           in map_option (\<lambda>r. it\<lparr>mi_remaining := r\<rparr>)
                (remove_prefix (case position of Some p \<Rightarrow> p | None \<Rightarrow> sv_length remaining)
                   remaining)))"

definition matches_eq :: "match_iterator \<Rightarrow> match_iterator \<Rightarrow> bool" where
  "matches_eq it other = (sv_begin (mi_remaining it) = sv_begin (mi_remaining other))"

definition matches_ne :: "match_iterator \<Rightarrow> match_iterator \<Rightarrow> bool" where
  "matches_ne it other = (sv_begin (mi_remaining it) \<noteq> sv_begin (mi_remaining other))"

definition matches_eq_sentinel :: "match_iterator \<Rightarrow> bool" where
  "matches_eq_sentinel it = sv_empty (mi_remaining it)"

text \<open>
  \<^verbatim>\<open>range_matches::begin()\<close> and \<^verbatim>\<open>end()\<close>; the latter constructs an
  iterator over the empty view \<^verbatim>\<open>{haystack_.end(), 0}\<close>.
\<close>

definition matches_begin :: "string \<Rightarrow> string_view \<Rightarrow> matcher \<Rightarrow> match_iterator option" where
  "matches_begin mem haystack m = matches_iterator mem haystack m"

definition matches_end :: "string \<Rightarrow> string_view \<Rightarrow> matcher \<Rightarrow> match_iterator option" where
  "matches_end mem haystack m =
     matches_iterator mem \<lparr>sv_start = sv_end haystack, sv_length = 0\<rparr> m"

text \<open>
  \<^verbatim>\<open>to(container)\<close>: \<^verbatim>\<open>for (auto match : *this) container.push_back(match)\<close>,
  that is, a loop from \<^verbatim>\<open>begin()\<close> while the iterator differs from \<^verbatim>\<open>end()\<close>.
  The loop has fuel; \<open>None\<close> is a failed assertion or a loop that needs more
  fuel.
\<close>

fun matches_loop ::
  "nat \<Rightarrow> string \<Rightarrow> match_iterator \<Rightarrow> match_iterator \<Rightarrow> string_view list option" where
  "matches_loop 0 mem it e = None"
| "matches_loop (Suc fuel) mem it e =
     (if matches_ne it e
      then (case matches_increment mem it of
              None \<Rightarrow> None
            | Some it' \<Rightarrow> map_option ((#) (matches_deref it)) (matches_loop fuel mem it' e))
      else Some [])"

definition matches_to :: "nat \<Rightarrow> string \<Rightarrow> string_view \<Rightarrow> matcher \<Rightarrow> string_view list option" where
  "matches_to fuel mem haystack m =
     (case matches_begin mem haystack m of
        None \<Rightarrow> None
      | Some b \<Rightarrow>
          (case matches_end mem haystack m of
             None \<Rightarrow> None
           | Some e \<Rightarrow> matches_loop fuel mem b e))"

text \<open>
  \<^verbatim>\<open>string_view::find_all(n, i)\<close> is the range \<^verbatim>\<open>{*this, {n, i}}\<close>; the model
  runs it into a list.
\<close>

definition sv_find_all ::
  "nat \<Rightarrow> string \<Rightarrow> string_view \<Rightarrow> string_view \<Rightarrow> bool \<Rightarrow> string_view list option" where
  "sv_find_all fuel mem v n i = matches_to fuel mem v (matcher_find n i)"

subsection \<open>Reverse match ranges\<close>

text \<open>The constructor of \<^verbatim>\<open>range_rmatches::iterator\<close>, lines 405-410.\<close>

definition rmatches_iterator :: "string \<Rightarrow> string_view \<Rightarrow> matcher \<Rightarrow> match_iterator option" where
  "rmatches_iterator mem haystack m =
     (let remaining = haystack;
          position = locate mem m remaining
      in map_option (\<lambda>r. \<lparr>mi_matcher = m, mi_remaining = r\<rparr>)
           (remove_suffix
              (case position of
                 Some p \<Rightarrow> size_sub (size_sub (sv_length remaining) p) (needle_length m)
               | None \<Rightarrow> sv_length remaining)
              remaining))"

definition rmatches_deref :: "match_iterator \<Rightarrow> string_view" where
  "rmatches_deref it =
     substr_pos (mi_remaining it)
       (size_sub (sv_length (mi_remaining it)) (needle_length (mi_matcher it)))"

definition rmatches_increment :: "string \<Rightarrow> match_iterator \<Rightarrow> match_iterator option" where
  "rmatches_increment mem it =
     (case remove_suffix (skip_length (mi_matcher it)) (mi_remaining it) of
        None \<Rightarrow> None
      | Some remaining \<Rightarrow>
          (let position = locate mem (mi_matcher it) remaining
           in map_option (\<lambda>r. it\<lparr>mi_remaining := r\<rparr>)
                (remove_suffix
                   (case position of
                      Some p \<Rightarrow>
                        size_sub (size_sub (sv_length remaining) p) (needle_length (mi_matcher it))
                    | None \<Rightarrow> sv_length remaining)
                   remaining)))"

definition rmatches_eq :: "match_iterator \<Rightarrow> match_iterator \<Rightarrow> bool" where
  "rmatches_eq it other = (sv_end (mi_remaining it) = sv_end (mi_remaining other))"

definition rmatches_ne :: "match_iterator \<Rightarrow> match_iterator \<Rightarrow> bool" where
  "rmatches_ne it other = (sv_end (mi_remaining it) \<noteq> sv_end (mi_remaining other))"

definition rmatches_begin :: "string \<Rightarrow> string_view \<Rightarrow> matcher \<Rightarrow> match_iterator option" where
  "rmatches_begin mem haystack m = rmatches_iterator mem haystack m"

definition rmatches_end :: "string \<Rightarrow> string_view \<Rightarrow> matcher \<Rightarrow> match_iterator option" where
  "rmatches_end mem haystack m =
     rmatches_iterator mem \<lparr>sv_start = sv_begin haystack, sv_length = 0\<rparr> m"

subsection \<open>Split ranges\<close>

text \<open>
  \<^verbatim>\<open>range_splits::iterator\<close> and \<^verbatim>\<open>range_rsplits::iterator\<close> have the same
  four members.
\<close>

record split_iterator =
  si_matcher :: matcher
  si_remaining :: string_view
  si_length_within_remaining :: nat
  si_reached_tail :: bool

text \<open>The constructor of \<^verbatim>\<open>range_splits::iterator\<close>, lines 492-496.\<close>

definition splits_iterator :: "string \<Rightarrow> string_view \<Rightarrow> matcher \<Rightarrow> split_iterator" where
  "splits_iterator mem haystack m =
     (let remaining = haystack;
          position = locate mem m remaining
      in \<lparr>si_matcher = m, si_remaining = remaining,
          si_length_within_remaining =
            (case position of Some p \<Rightarrow> p | None \<Rightarrow> sv_length remaining),
          si_reached_tail = False\<rparr>)"

text \<open>
  The constructor that takes \<^verbatim>\<open>end_sentinel_type\<close>, lines 498-499, leaves
  \<^verbatim>\<open>length_within_remaining_\<close> uninitialised; its value is the argument
  \<open>junk\<close>.
\<close>

definition splits_iterator_sentinel :: "string_view \<Rightarrow> matcher \<Rightarrow> nat \<Rightarrow> split_iterator" where
  "splits_iterator_sentinel haystack m junk =
     \<lparr>si_matcher = m, si_remaining = haystack,
      si_length_within_remaining = junk, si_reached_tail = True\<rparr>"

definition splits_deref :: "split_iterator \<Rightarrow> string_view" where
  "splits_deref it = substr_pos_count (si_remaining it) 0 (si_length_within_remaining it)"

text \<open>\<^verbatim>\<open>operator++\<close>, lines 503-510.\<close>

definition splits_increment :: "string \<Rightarrow> split_iterator \<Rightarrow> split_iterator option" where
  "splits_increment mem it =
     (case remove_prefix (si_length_within_remaining it) (si_remaining it) of
        None \<Rightarrow> None
      | Some r1 \<Rightarrow>
          (let reached_tail = sv_empty r1 in
           case remove_prefix (needle_length (si_matcher it) * (if reached_tail then 0 else 1)) r1 of
             None \<Rightarrow> None
           | Some remaining \<Rightarrow>
               (let position = locate mem (si_matcher it) remaining
                in Some (it\<lparr>si_remaining := remaining,
                          si_length_within_remaining :=
                            (case position of Some p \<Rightarrow> p | None \<Rightarrow> sv_length remaining),
                          si_reached_tail := reached_tail\<rparr>))))"

definition splits_eq :: "split_iterator \<Rightarrow> split_iterator \<Rightarrow> bool" where
  "splits_eq it other =
     (sv_begin (si_remaining it) = sv_begin (si_remaining other)
      \<and> si_reached_tail it = si_reached_tail other)"

definition splits_ne :: "split_iterator \<Rightarrow> split_iterator \<Rightarrow> bool" where
  "splits_ne it other =
     (sv_begin (si_remaining it) \<noteq> sv_begin (si_remaining other)
      \<or> si_reached_tail it \<noteq> si_reached_tail other)"

definition splits_eq_sentinel :: "split_iterator \<Rightarrow> bool" where
  "splits_eq_sentinel it = (sv_empty (si_remaining it) \<and> si_reached_tail it)"

definition splits_begin :: "string \<Rightarrow> string_view \<Rightarrow> matcher \<Rightarrow> split_iterator" where
  "splits_begin mem haystack m = splits_iterator mem haystack m"

definition splits_end :: "string_view \<Rightarrow> matcher \<Rightarrow> nat \<Rightarrow> split_iterator" where
  "splits_end haystack m junk =
     splits_iterator_sentinel \<lparr>sv_start = sv_end haystack, sv_length = 0\<rparr> m junk"

fun splits_loop ::
  "nat \<Rightarrow> string \<Rightarrow> split_iterator \<Rightarrow> split_iterator \<Rightarrow> string_view list option" where
  "splits_loop 0 mem it e = None"
| "splits_loop (Suc fuel) mem it e =
     (if splits_ne it e
      then (case splits_increment mem it of
              None \<Rightarrow> None
            | Some it' \<Rightarrow> map_option ((#) (splits_deref it)) (splits_loop fuel mem it' e))
      else Some [])"

definition splits_to ::
  "nat \<Rightarrow> string \<Rightarrow> string_view \<Rightarrow> matcher \<Rightarrow> nat \<Rightarrow> string_view list option" where
  "splits_to fuel mem haystack m junk =
     splits_loop fuel mem (splits_begin mem haystack m) (splits_end haystack m junk)"

text \<open>\<^verbatim>\<open>string_view::split(n)\<close> is the range \<^verbatim>\<open>{*this, {n}}\<close>, run into a list.\<close>

definition sv_split ::
  "nat \<Rightarrow> string \<Rightarrow> string_view \<Rightarrow> string_view \<Rightarrow> nat \<Rightarrow> string_view list option" where
  "sv_split fuel mem v n junk = splits_to fuel mem v (matcher_find n True) junk"

subsection \<open>Reverse split ranges\<close>

text \<open>The constructor of \<^verbatim>\<open>range_rsplits::iterator\<close>, lines 583-589.\<close>

definition rsplits_iterator :: "string \<Rightarrow> string_view \<Rightarrow> matcher \<Rightarrow> split_iterator" where
  "rsplits_iterator mem haystack m =
     (let remaining = haystack;
          position = locate mem m remaining
      in \<lparr>si_matcher = m, si_remaining = remaining,
          si_length_within_remaining =
            (case position of
               Some p \<Rightarrow> size_sub (size_sub (sv_length remaining) p) (needle_length m)
             | None \<Rightarrow> sv_length remaining),
          si_reached_tail = False\<rparr>)"

definition rsplits_deref :: "split_iterator \<Rightarrow> string_view" where
  "rsplits_deref it =
     substr_pos (si_remaining it)
       (size_sub (sv_length (si_remaining it)) (si_length_within_remaining it))"

definition rsplits_increment :: "string \<Rightarrow> split_iterator \<Rightarrow> split_iterator option" where
  "rsplits_increment mem it =
     (case remove_suffix (si_length_within_remaining it) (si_remaining it) of
        None \<Rightarrow> None
      | Some r1 \<Rightarrow>
          (let reached_tail = sv_empty r1 in
           case remove_suffix (needle_length (si_matcher it) * (if reached_tail then 0 else 1)) r1 of
             None \<Rightarrow> None
           | Some remaining \<Rightarrow>
               (let position = locate mem (si_matcher it) remaining
                in Some (it\<lparr>si_remaining := remaining,
                          si_length_within_remaining :=
                            (case position of
                               Some p \<Rightarrow>
                                 size_sub (size_sub (sv_length remaining) p)
                                   (needle_length (si_matcher it))
                             | None \<Rightarrow> sv_length remaining),
                          si_reached_tail := reached_tail\<rparr>))))"

definition rsplits_eq :: "split_iterator \<Rightarrow> split_iterator \<Rightarrow> bool" where
  "rsplits_eq it other =
     (sv_end (si_remaining it) = sv_end (si_remaining other)
      \<and> si_reached_tail it = si_reached_tail other)"

definition rsplits_ne :: "split_iterator \<Rightarrow> split_iterator \<Rightarrow> bool" where
  "rsplits_ne it other =
     (sv_end (si_remaining it) \<noteq> sv_end (si_remaining other)
      \<or> si_reached_tail it \<noteq> si_reached_tail other)"

definition rsplits_begin :: "string \<Rightarrow> string_view \<Rightarrow> matcher \<Rightarrow> split_iterator" where
  "rsplits_begin mem haystack m = rsplits_iterator mem haystack m"

definition rsplits_end :: "string_view \<Rightarrow> matcher \<Rightarrow> nat \<Rightarrow> split_iterator" where
  "rsplits_end haystack m junk =
     splits_iterator_sentinel \<lparr>sv_start = sv_begin haystack, sv_length = 0\<rparr> m junk"

subsection \<open>Properties of views, search and partition\<close>

lemma size_sub_le: "b \<le> a \<Longrightarrow> a < 2 ^ 64 \<Longrightarrow> size_sub a b = a - b"
proof -
  assume le: "b \<le> a" and lt: "a < 2 ^ 64"
  have b: "b mod 2 ^ 64 = b" using le lt by simp
  have "(a + 2 ^ 64 - b) mod 2 ^ 64 = ((a - b) + 2 ^ 64) mod 2 ^ 64"
    using le by (intro arg_cong[where f="\<lambda>x. x mod 2 ^ 64"]) arith
  also have "\<dots> = (a - b) mod 2 ^ 64" by (rule mod_add_self2)
  also have "\<dots> = a - b" using lt by (intro mod_less) arith
  finally show ?thesis unfolding size_sub_def b .
qed

lemma sz_find_Some:
  "sz_find h n = Some p \<Longrightarrow> n \<noteq> [] \<and> p + length n \<le> length h \<and> take (length n) (drop p h) = n"
proof (induction h arbitrary: p)
  case Nil then show ?case by simp
next
  case (Cons c h)
  show ?case
  proof (cases "n \<noteq> [] \<and> take (length n) (c # h) = n")
    case True
    with Cons.prems have "p = 0" by simp
    moreover from True have "length (take (length n) (c # h)) = length n" by simp
    then have "length n \<le> length (c # h)" by simp
    ultimately show ?thesis using True by simp
  next
    case False
    with Cons.prems obtain q where q: "sz_find h n = Some q" "p = Suc q" by auto
    from Cons.IH[OF q(1)] q(2) show ?thesis by simp
  qed
qed

text \<open>
  C10. For \<open>pos \<le> size()\<close> and any \<open>count\<close>, \<^verbatim>\<open>substr(pos, count)\<close> is the
  window of the view that starts at offset \<open>pos\<close> and whose length is the
  smaller of \<open>count\<close> and \<open>size() - pos\<close>: an over-long count is clamped.
\<close>

theorem substr_clamps:
  assumes "pos \<le> sv_length v" and "sv_length v < 2 ^ 64"
  shows "substr_pos_count v pos count =
           \<lparr>sv_start = sv_start v + pos, sv_length = min count (sv_length v - pos)\<rparr>
         \<and> view_bytes mem (substr_pos_count v pos count) =
             take (min count (sv_length v - pos)) (drop pos (view_bytes mem v))"
proof -
  have 1: "substr_pos_count v pos count =
           \<lparr>sv_start = sv_start v + pos, sv_length = min count (sv_length v - pos)\<rparr>"
    using assms by (simp add: substr_pos_count_def size_sub_le)
  have "take (min count (sv_length v - pos)) (drop pos (take (sv_length v) (drop (sv_start v) mem)))
      = take (min count (sv_length v - pos)) (drop (sv_start v + pos) mem)"
    by (simp add: drop_take add.commute)
  with 1 show ?thesis by (simp add: view_bytes_def)
qed


theorem substr_clamps_witness:
  "(1::nat) \<le> sv_length \<lparr>sv_start = 0, sv_length = 3\<rparr>
   \<and> sv_length \<lparr>sv_start = 0, sv_length = 3\<rparr> < 2 ^ 64
   \<and> substr_pos_count \<lparr>sv_start = 0, sv_length = 3\<rparr> 1 10 = \<lparr>sv_start = 1, sv_length = 2\<rparr>
   \<and> view_bytes ''abc'' (substr_pos_count \<lparr>sv_start = 0, sv_length = 3\<rparr> 1 10) = ''bc''"
proof -
  have a: "(1::nat) \<le> sv_length \<lparr>sv_start = 0, sv_length = 3\<rparr>" by simp
  have b: "sv_length \<lparr>sv_start = 0, sv_length = 3\<rparr> < 2 ^ 64" by simp
  show ?thesis
    using substr_clamps[OF a b, of 10 "''abc''"] a b by (simp add: view_bytes_def)
qed

lemma view_bytes_length: "view_in mem v \<Longrightarrow> length (view_bytes mem v) = sv_length v"
  unfolding view_bytes_def view_in_def by (simp add: min_def) arith

lemma sv_find_Some:
  assumes "sv_find mem h p = Some pos"
  shows "view_bytes mem p \<noteq> []"
    and "pos + length (view_bytes mem p) \<le> length (view_bytes mem h)"
    and "take (length (view_bytes mem p)) (drop pos (view_bytes mem h)) = view_bytes mem p"
  using sz_find_Some[OF assms[unfolded sv_find_def]] by simp_all

lemma view_bytes_window:
  assumes "view_in mem v" and "a + n \<le> sv_length v"
  shows "view_bytes mem \<lparr>sv_start = sv_start v + a, sv_length = n\<rparr>
         = take n (drop a (view_bytes mem v))"
proof -
  have "take n (drop a (take (sv_length v) (drop (sv_start v) mem)))
      = take n (drop (sv_start v + a) mem)"
    using assms(2) by (simp add: drop_take add.commute min_def)
  then show ?thesis by (simp add: view_bytes_def)
qed

text \<open>
  C8. \<^verbatim>\<open>partition(P)\<close> on a view \<open>H\<close> returns \<open>(before, match, after)\<close>
  with \<open>before @ match @ after = H\<close>, byte for byte, when \<open>P\<close> is found (and
  then \<open>match\<close> holds the bytes of \<open>P\<close>), and \<open>(H, empty, empty)\<close> when it is
  not found: \<open>before\<close> is \<open>H\<close>, and \<open>match\<close> and \<open>after\<close> are the default
  view, which holds no byte.
\<close>

theorem partition_law:
  assumes "view_in mem h" and "view_in mem p"
  shows "(sv_find mem h p \<noteq> None \<longrightarrow>
            view_bytes mem (before (sv_partition mem h p))
              @ view_bytes mem (match (sv_partition mem h p))
              @ view_bytes mem (after (sv_partition mem h p)) = view_bytes mem h
            \<and> view_bytes mem (match (sv_partition mem h p)) = view_bytes mem p)
         \<and> (sv_find mem h p = None \<longrightarrow>
            sv_partition mem h p
              = \<lparr>before = h, match = string_view_init, after = string_view_init\<rparr>
            \<and> view_bytes mem (before (sv_partition mem h p)) = view_bytes mem h
            \<and> view_bytes mem (match (sv_partition mem h p)) = []
            \<and> view_bytes mem (after (sv_partition mem h p)) = [])"
proof (cases "sv_find mem h p")
  case None
  then show ?thesis
    by (simp add: sv_partition_def split_impl_def substr_def string_view_init_def view_bytes_def)
next
  case (Some pos)
  let ?H = "view_bytes mem h" and ?n = "sv_length p"
  have n: "length (view_bytes mem p) = ?n" using assms(2) by (rule view_bytes_length)
  have len: "length ?H = sv_length h" using assms(1) by (rule view_bytes_length)
  have bound: "pos + ?n \<le> sv_length h" using sv_find_Some(2)[OF Some] n len by simp
  have lt: "sv_length h < 2 ^ 64" using assms(1) by (simp add: view_in_def)
  have b: "substr_pos_count h 0 pos = \<lparr>sv_start = sv_start h + 0, sv_length = pos\<rparr>"
    using bound lt by (simp add: substr_pos_count_def size_sub_le)
  have m: "substr_pos_count h pos ?n = \<lparr>sv_start = sv_start h + pos, sv_length = ?n\<rparr>"
    using bound lt by (simp add: substr_pos_count_def size_sub_le)
  have a: "substr_pos h (pos + ?n) =
           \<lparr>sv_start = sv_start h + (pos + ?n), sv_length = sv_length h - (pos + ?n)\<rparr>"
    using bound lt by (simp add: substr_pos_def size_sub_le)
  have vb: "view_bytes mem (substr_pos_count h 0 pos) = take pos ?H"
    unfolding b using view_bytes_window[OF assms(1), of 0 pos] bound by simp
  have vm: "view_bytes mem (substr_pos_count h pos ?n) = take ?n (drop pos ?H)"
    unfolding m using view_bytes_window[OF assms(1), of pos ?n] bound by simp
  have va: "view_bytes mem (substr_pos h (pos + ?n)) = drop (pos + ?n) ?H"
    unfolding a using view_bytes_window[OF assms(1), of "pos + ?n" "sv_length h - (pos + ?n)"] bound len
    by simp
  have "take pos ?H @ take ?n (drop pos ?H) @ drop (pos + ?n) ?H = ?H"
    by (metis append.assoc append_take_drop_id take_add add.commute)
  moreover have "take ?n (drop pos ?H) = view_bytes mem p"
    using sv_find_Some(3)[OF Some] n by simp
  ultimately show ?thesis
    using Some vb vm va by (simp add: sv_partition_def split_impl_def)
qed

theorem partition_law_witness:
  "view_in ''a,b,c,'' \<lparr>sv_start = 0, sv_length = 5\<rparr>
   \<and> view_in ''a,b,c,'' \<lparr>sv_start = 5, sv_length = 1\<rparr>
   \<and> sv_find ''a,b,c,'' \<lparr>sv_start = 0, sv_length = 5\<rparr> \<lparr>sv_start = 5, sv_length = 1\<rparr> = Some 1
   \<and> view_bytes ''a,b,c,''
        (before (sv_partition ''a,b,c,'' \<lparr>sv_start = 0, sv_length = 5\<rparr> \<lparr>sv_start = 5, sv_length = 1\<rparr>))
      @ view_bytes ''a,b,c,''
        (match (sv_partition ''a,b,c,'' \<lparr>sv_start = 0, sv_length = 5\<rparr> \<lparr>sv_start = 5, sv_length = 1\<rparr>))
      @ view_bytes ''a,b,c,''
        (after (sv_partition ''a,b,c,'' \<lparr>sv_start = 0, sv_length = 5\<rparr> \<lparr>sv_start = 5, sv_length = 1\<rparr>))
      = view_bytes ''a,b,c,'' \<lparr>sv_start = 0, sv_length = 5\<rparr>
   \<and> view_bytes ''a,b,c,'' \<lparr>sv_start = 0, sv_length = 5\<rparr> = ''a,b,c''
   \<and> view_in ''a,b,c,'' \<lparr>sv_start = 0, sv_length = 1\<rparr>
   \<and> sv_find ''a,b,c,'' \<lparr>sv_start = 0, sv_length = 1\<rparr> \<lparr>sv_start = 5, sv_length = 1\<rparr> = None
   \<and> view_bytes ''a,b,c,'' (before (sv_partition ''a,b,c,'' \<lparr>sv_start = 0, sv_length = 1\<rparr> \<lparr>sv_start = 5, sv_length = 1\<rparr>)) = ''a''
   \<and> view_bytes ''a,b,c,'' (match (sv_partition ''a,b,c,'' \<lparr>sv_start = 0, sv_length = 1\<rparr> \<lparr>sv_start = 5, sv_length = 1\<rparr>)) = []
   \<and> view_bytes ''a,b,c,'' (after (sv_partition ''a,b,c,'' \<lparr>sv_start = 0, sv_length = 1\<rparr> \<lparr>sv_start = 5, sv_length = 1\<rparr>)) = []"
proof -
  have h: "view_in ''a,b,c,'' \<lparr>sv_start = 0, sv_length = 5\<rparr>" by (simp add: view_in_def)
  have p: "view_in ''a,b,c,'' \<lparr>sv_start = 5, sv_length = 1\<rparr>" by (simp add: view_in_def)
  have f: "sv_find ''a,b,c,'' \<lparr>sv_start = 0, sv_length = 5\<rparr> \<lparr>sv_start = 5, sv_length = 1\<rparr> = Some 1"
    by (simp add: sv_find_def view_bytes_def)
  have v: "view_bytes ''a,b,c,'' \<lparr>sv_start = 0, sv_length = 5\<rparr> = ''a,b,c''"
    by (simp add: view_bytes_def)
  have r: "view_bytes ''a,b,c,''
        (before (sv_partition ''a,b,c,'' \<lparr>sv_start = 0, sv_length = 5\<rparr> \<lparr>sv_start = 5, sv_length = 1\<rparr>))
      @ view_bytes ''a,b,c,''
        (match (sv_partition ''a,b,c,'' \<lparr>sv_start = 0, sv_length = 5\<rparr> \<lparr>sv_start = 5, sv_length = 1\<rparr>))
      @ view_bytes ''a,b,c,''
        (after (sv_partition ''a,b,c,'' \<lparr>sv_start = 0, sv_length = 5\<rparr> \<lparr>sv_start = 5, sv_length = 1\<rparr>))
      = view_bytes ''a,b,c,'' \<lparr>sv_start = 0, sv_length = 5\<rparr>"
    using partition_law[OF h p] f by (metis option.distinct(1))
  have h2: "view_in ''a,b,c,'' \<lparr>sv_start = 0, sv_length = 1\<rparr>" by (simp add: view_in_def)
  have f2: "sv_find ''a,b,c,'' \<lparr>sv_start = 0, sv_length = 1\<rparr> \<lparr>sv_start = 5, sv_length = 1\<rparr> = None"
    by (simp add: sv_find_def view_bytes_def)
  have v2: "view_bytes ''a,b,c,'' \<lparr>sv_start = 0, sv_length = 1\<rparr> = ''a''" by (simp add: view_bytes_def)
  have r2: "view_bytes ''a,b,c,'' (before (sv_partition ''a,b,c,'' \<lparr>sv_start = 0, sv_length = 1\<rparr> \<lparr>sv_start = 5, sv_length = 1\<rparr>)) = view_bytes ''a,b,c,'' \<lparr>sv_start = 0, sv_length = 1\<rparr>"
    "view_bytes ''a,b,c,'' (match (sv_partition ''a,b,c,'' \<lparr>sv_start = 0, sv_length = 1\<rparr> \<lparr>sv_start = 5, sv_length = 1\<rparr>)) = []"
    "view_bytes ''a,b,c,'' (after (sv_partition ''a,b,c,'' \<lparr>sv_start = 0, sv_length = 1\<rparr> \<lparr>sv_start = 5, sv_length = 1\<rparr>)) = []"
    using partition_law[OF h2 p] f2 by blast+
  show ?thesis using h p f r v h2 f2 r2 v2 by simp
qed

lemma rpartition_is_partition: "sv_rpartition mem v pattern = sv_partition mem v pattern"
  by (simp add: sv_rpartition_def sv_partition_def)

text \<open>
  C4. The claim: \<^verbatim>\<open>rpartition(P)\<close> splits around the last occurrence of
  \<open>P\<close>. The code calls \<^verbatim>\<open>split_\<close>, the search for the first occurrence.
  In \<^verbatim>\<open>"a,b,c"\<close> the last comma is at offset 3; \<^verbatim>\<open>rpartition(",")\<close> returns \<^verbatim>\<open>("a", ",", "b,c")\<close>, while \<^verbatim>\<open>rsplit_\<close>,
  which nothing calls, returns \<^verbatim>\<open>("a,b", ",", "c")\<close>.
\<close>

theorem rpartition_splits_at_first_match:
  "sv_rfind ''a,b,c,'' \<lparr>sv_start = 0, sv_length = 5\<rparr> \<lparr>sv_start = 5, sv_length = 1\<rparr> = Some 3
   \<and> map (view_bytes ''a,b,c,'')
        [before (sv_rpartition ''a,b,c,'' \<lparr>sv_start = 0, sv_length = 5\<rparr> \<lparr>sv_start = 5, sv_length = 1\<rparr>),
         match (sv_rpartition ''a,b,c,'' \<lparr>sv_start = 0, sv_length = 5\<rparr> \<lparr>sv_start = 5, sv_length = 1\<rparr>),
         after (sv_rpartition ''a,b,c,'' \<lparr>sv_start = 0, sv_length = 5\<rparr> \<lparr>sv_start = 5, sv_length = 1\<rparr>)]
      = [''a'', '','', ''b,c'']
   \<and> map (view_bytes ''a,b,c,'')
        [before (rsplit_impl ''a,b,c,'' \<lparr>sv_start = 0, sv_length = 5\<rparr> \<lparr>sv_start = 5, sv_length = 1\<rparr> 1),
         match (rsplit_impl ''a,b,c,'' \<lparr>sv_start = 0, sv_length = 5\<rparr> \<lparr>sv_start = 5, sv_length = 1\<rparr> 1),
         after (rsplit_impl ''a,b,c,'' \<lparr>sv_start = 0, sv_length = 5\<rparr> \<lparr>sv_start = 5, sv_length = 1\<rparr> 1)]
      = [''a,b'', '','', ''c'']"
  by (simp add: sv_rpartition_def split_impl_def rsplit_impl_def sv_find_def sv_rfind_def
      view_bytes_def substr_pos_count_def substr_pos_def size_sub_def)

section \<open>What the ranges yield\<close>

text \<open>
  The offsets a forward scan reports, in the words of the specification: the
  first occurrence of the needle, then the scan resumes one byte past the start
  of the match when overlaps are allowed, and past the whole match when they are
  not. Offsets are relative to the start of the haystack.
\<close>

function match_offsets :: "bool \<Rightarrow> string \<Rightarrow> string \<Rightarrow> nat list" where
  "match_offsets overlaps H N =
     (case sz_find H N of
        None \<Rightarrow> []
      | Some p \<Rightarrow>
          p # map ((+) (p + (if overlaps then 1 else length N)))
                (match_offsets overlaps (drop (p + (if overlaps then 1 else length N)) H) N))"
  by pat_completeness auto
termination
proof (relation "measure (\<lambda>(overlaps, H, N). length H)")
  show "wf (measure (\<lambda>(overlaps, H, N). length H))" by simp
next
  fix overlaps :: bool and H N :: string and p :: nat
  assume "sz_find H N = Some p"
  from sz_find_Some[OF this] have "N \<noteq> []" and "p + length N \<le> length H" by simp_all
  then have "0 < length N" and "0 < length H" by auto
  then show "((overlaps, drop (p + (if overlaps then 1 else length N)) H, N), (overlaps, H, N))
        \<in> measure (\<lambda>(overlaps, H, N). length H)"
    by simp
qed

text \<open>
  The gaps between the matches of a delimiter, and their concatenation with the
  delimiter between consecutive gaps.
\<close>

function split_gaps :: "string \<Rightarrow> string \<Rightarrow> string list" where
  "split_gaps H D =
     (case sz_find H D of
        None \<Rightarrow> [H]
      | Some p \<Rightarrow> take p H # split_gaps (drop (p + length D) H) D)"
  by pat_completeness auto
termination
proof (relation "measure (\<lambda>(H, D). length H)")
  show "wf (measure (\<lambda>(H, D). length H))" by simp
next
  fix H D :: string and p :: nat
  assume "sz_find H D = Some p"
  from sz_find_Some[OF this] have "D \<noteq> []" and "p + length D \<le> length H" by simp_all
  then have "0 < length D" and "0 < length H" by auto
  then show "((drop (p + length D) H, D), (H, D)) \<in> measure (\<lambda>(H, D). length H)"
    by simp
qed

fun join :: "string \<Rightarrow> string list \<Rightarrow> string" where
  "join D [] = []"
| "join D [g] = g"
| "join D (g # g' # gs) = g @ D @ join D (g' # gs)"

declare match_offsets.simps [simp del] split_gaps.simps [simp del]


text \<open>The length of the prefix before the first match, or of everything.\<close>

definition trim_length :: "string \<Rightarrow> string \<Rightarrow> nat" where
  "trim_length X N = (case sz_find X N of None \<Rightarrow> length X | Some p \<Rightarrow> p)"

lemma sz_find_Nil [simp]: "sz_find X [] = None"
  by (induction X) simp_all

lemma sz_find_drop: "sz_find X N = Some p \<Longrightarrow> sz_find (drop p X) N = Some 0"
proof (induction X arbitrary: p)
  case Nil then show ?case by simp
next
  case (Cons c h)
  show ?case
  proof (cases "N \<noteq> [] \<and> take (length N) (c # h) = N")
    case True
    with Cons.prems have "p = 0" by simp
    with True show ?thesis by simp
  next
    case False
    with Cons.prems obtain q where q: "sz_find h N = Some q" "p = Suc q" by auto
    from Cons.IH[OF q(1)] q(2) show ?thesis by simp
  qed
qed

lemma match_offsets_None: "sz_find X N = None \<Longrightarrow> match_offsets ov X N = []"
  by (subst match_offsets.simps) simp

lemma match_offsets_Some:
  "sz_find X N = Some p \<Longrightarrow>
   match_offsets ov X N =
     p # map ((+) (p + (if ov then 1 else length N)))
           (match_offsets ov (drop (p + (if ov then 1 else length N)) X) N)"
  by (subst match_offsets.simps) simp

lemma match_offsets_shift:
  assumes "sz_find X N = Some p"
  shows "match_offsets ov X N = map ((+) p) (match_offsets ov (drop p X) N)"
proof -
  let ?st = "if ov then 1 else length N"
  have "match_offsets ov (drop p X) N =
          0 # map ((+) ?st) (match_offsets ov (drop ?st (drop p X)) N)"
    using match_offsets_Some[OF sz_find_drop[OF assms], of ov] by simp
  moreover have "drop ?st (drop p X) = drop (p + ?st) X" by (simp add: add.commute)
  moreover have "map ((+) p) (map ((+) ?st) ys) = map ((+) (p + ?st)) ys" for ys :: "nat list"
    by (simp add: add.assoc)
  ultimately show ?thesis
    using match_offsets_Some[OF assms, of ov] by simp
qed

lemma trim_length_le: "trim_length X N \<le> length X"
  using sz_find_Some[of X N] by (auto simp: trim_length_def split: option.split)

lemma trim_length_inv:
  "drop (trim_length X N) X = [] \<or> sz_find (drop (trim_length X N) X) N = Some 0"
  by (auto simp: trim_length_def sz_find_drop split: option.split)

lemma trim_length_offsets:
  "match_offsets ov X N = map ((+) (trim_length X N)) (match_offsets ov (drop (trim_length X N) X) N)"
proof (cases "sz_find X N")
  case None
  then show ?thesis by (simp add: trim_length_def match_offsets_None)
next
  case (Some p)
  then show ?thesis using match_offsets_shift[OF Some, of ov] by (simp add: trim_length_def)
qed

lemma view_bytes_drop:
  assumes "view_in mem r" and "k \<le> sv_length r"
  shows "view_bytes mem \<lparr>sv_start = sv_start r + k, sv_length = sv_length r - k\<rparr>
         = drop k (view_bytes mem r)"
proof -
  have "length (view_bytes mem r) = sv_length r" using assms(1) by (rule view_bytes_length)
  then have "take (sv_length r - k) (drop k (view_bytes mem r)) = drop k (view_bytes mem r)"
    by simp
  then show ?thesis using view_bytes_window[OF assms(1), of k "sv_length r - k"] assms(2) by simp
qed

lemma view_in_drop:
  assumes "view_in mem r" and "k \<le> sv_length r"
  shows "view_in mem \<lparr>sv_start = sv_start r + k, sv_length = sv_length r - k\<rparr>"
  using assms by (simp add: view_in_def)

text \<open>Dropping the prefix before the next match, as the constructor and the increment do.\<close>

lemma trim_remaining:
  assumes "view_in mem r" and "view_in mem n"
  shows "remove_prefix (case sv_find mem r n of Some p \<Rightarrow> p | None \<Rightarrow> sv_length r) r
         = Some \<lparr>sv_start = sv_start r + trim_length (view_bytes mem r) (view_bytes mem n),
                 sv_length = sv_length r - trim_length (view_bytes mem r) (view_bytes mem n)\<rparr>"
proof -
  have len: "length (view_bytes mem r) = sv_length r" using assms(1) by (rule view_bytes_length)
  have "(case sv_find mem r n of Some p \<Rightarrow> p | None \<Rightarrow> sv_length r)
        = trim_length (view_bytes mem r) (view_bytes mem n)"
    by (simp add: trim_length_def sv_find_def len split: option.split)
  moreover have "trim_length (view_bytes mem r) (view_bytes mem n) \<le> sv_length r"
    using trim_length_le[of "view_bytes mem r" "view_bytes mem n"] len by simp
  ultimately show ?thesis by (simp add: remove_prefix_def)
qed

text \<open>The value of \<^verbatim>\<open>skip_after_match_\<close> that \<open>matcher_find\<close> sets.\<close>

definition skip_of :: "bool \<Rightarrow> string_view \<Rightarrow> nat" where
  "skip_of ov n = (if ov then 1 else sv_length n)"

lemma matches_increment_at_match:
  fixes ov :: bool
  assumes r: "view_in mem r" and n: "view_in mem n"
    and at: "sz_find (view_bytes mem r) (view_bytes mem n) = Some 0"
  defines "X \<equiv> drop (skip_of ov n) (view_bytes mem r)"
  defines "k \<equiv> skip_of ov n + trim_length X (view_bytes mem n)"
  shows "matches_increment mem \<lparr>mi_matcher = matcher_find n ov, mi_remaining = r\<rparr>
         = Some \<lparr>mi_matcher = matcher_find n ov,
                 mi_remaining = \<lparr>sv_start = sv_start r + k, sv_length = sv_length r - k\<rparr>\<rparr>"
    and "k \<le> sv_length r" and "0 < k"
proof -
  let ?N = "view_bytes mem n" and ?st = "skip_of ov n"
  have lenr: "length (view_bytes mem r) = sv_length r" using r by (rule view_bytes_length)
  have lenn: "length ?N = sv_length n" using n by (rule view_bytes_length)
  from sz_find_Some[OF at] have "0 < length ?N" and "length ?N \<le> sv_length r"
    using lenr by simp_all
  then have "0 < sv_length n" and "sv_length n \<le> sv_length r"
    using lenn by simp_all
  then have st: "0 < ?st" "?st \<le> sv_length r"
    by (simp_all add: skip_of_def)
  let ?r1 = "\<lparr>sv_start = sv_start r + ?st, sv_length = sv_length r - ?st\<rparr>"
  have r1: "view_in mem ?r1" using r st(2) by (rule view_in_drop)
  have b1: "view_bytes mem ?r1 = X" unfolding X_def using r st(2) by (rule view_bytes_drop)
  have rp: "remove_prefix ?st r = Some ?r1" using st(2) by (simp add: remove_prefix_def)
  have tl: "trim_length X ?N \<le> sv_length r - ?st"
    using trim_length_le[of X ?N] lenr by (simp add: X_def)
  have tr: "remove_prefix (case sv_find mem ?r1 n of Some p \<Rightarrow> p | None \<Rightarrow> sv_length ?r1) ?r1
            = Some \<lparr>sv_start = sv_start r + k, sv_length = sv_length r - k\<rparr>"
    using trim_remaining[OF r1 n] unfolding b1 k_def by (simp add: add.assoc)
  have sk: "skip_length (matcher_find n ov) = ?st"
    by (simp add: matcher_find_def skip_of_def)
  have lc: "locate mem (matcher_find n ov) v = sv_find mem v n" for v
    by (simp add: matcher_find_def)
  show "matches_increment mem \<lparr>mi_matcher = matcher_find n ov, mi_remaining = r\<rparr>
         = Some \<lparr>mi_matcher = matcher_find n ov,
                 mi_remaining = \<lparr>sv_start = sv_start r + k, sv_length = sv_length r - k\<rparr>\<rparr>"
    using tr by (simp add: matches_increment_def sk rp lc Let_def)
  show "k \<le> sv_length r" using tl st(2) by (simp add: k_def)
  show "0 < k" using st(1) by (simp add: k_def)
qed

lemma matches_loop_run:
  assumes n: "view_in mem n"
  shows "\<lbrakk>view_in mem r; sv_length r < fuel;
          view_bytes mem r = [] \<or> sz_find (view_bytes mem r) (view_bytes mem n) = Some 0\<rbrakk>
         \<Longrightarrow> matches_loop fuel mem \<lparr>mi_matcher = matcher_find n ov, mi_remaining = r\<rparr>
               \<lparr>mi_matcher = m', mi_remaining = \<lparr>sv_start = sv_end r, sv_length = 0\<rparr>\<rparr>
             = Some (map (\<lambda>q. \<lparr>sv_start = sv_start r + q, sv_length = sv_length n\<rparr>)
                      (match_offsets ov (view_bytes mem r) (view_bytes mem n)))"
proof (induction fuel arbitrary: r)
  case 0
  then show ?case by simp
next
  case (Suc fuel)
  let ?N = "view_bytes mem n" and ?H = "view_bytes mem r"
  let ?it = "\<lparr>mi_matcher = matcher_find n ov, mi_remaining = r\<rparr>"
  let ?e = "\<lparr>mi_matcher = m', mi_remaining = \<lparr>sv_start = sv_end r, sv_length = 0\<rparr>\<rparr>"
  have lenr: "length ?H = sv_length r" using Suc.prems(1) by (rule view_bytes_length)
  have lenn: "length ?N = sv_length n" using n by (rule view_bytes_length)
  show ?case
  proof (cases "sv_length r = 0")
    case True
    then have "?H = []" using lenr by simp
    then have "match_offsets ov ?H ?N = []" by (simp add: match_offsets_None)
    moreover have "\<not> matches_ne ?it ?e"
      using True by (simp add: matches_ne_def sv_begin_def sv_end_def)
    ultimately show ?thesis by simp
  next
    case False
    then have "?H \<noteq> []" using lenr by auto
    with Suc.prems(3) have at: "sz_find ?H ?N = Some 0" by simp
    define X where "X = drop (skip_of ov n) ?H"
    define k where "k = skip_of ov n + trim_length X ?N"
    let ?r' = "\<lparr>sv_start = sv_start r + k, sv_length = sv_length r - k\<rparr>"
    note inc = matches_increment_at_match[OF Suc.prems(1) n at, of ov, folded X_def k_def]
    have ne: "matches_ne ?it ?e"
      using False by (simp add: matches_ne_def sv_begin_def sv_end_def)
    have r': "view_in mem ?r'" using Suc.prems(1) inc(2) by (rule view_in_drop)
    have b': "view_bytes mem ?r' = drop k ?H" using Suc.prems(1) inc(2) by (rule view_bytes_drop)
    have e': "sv_end ?r' = sv_end r" using inc(2) by (simp add: sv_end_def)
    have fuel: "sv_length ?r' < fuel" using inc(2,3) Suc.prems(2) by simp
    have dk: "drop k ?H = drop (trim_length X ?N) X"
      by (simp add: X_def k_def add.commute)
    have inv': "view_bytes mem ?r' = [] \<or> sz_find (view_bytes mem ?r') ?N = Some 0"
      unfolding b' dk by (rule trim_length_inv)
    have IH: "matches_loop fuel mem
                \<lparr>mi_matcher = matcher_find n ov, mi_remaining = ?r'\<rparr> ?e
              = Some (map (\<lambda>q. \<lparr>sv_start = sv_start ?r' + q, sv_length = sv_length n\<rparr>)
                       (match_offsets ov (drop k ?H) ?N))"
      using Suc.IH[OF r' fuel inv'] unfolding e' b' .
    have sn: "needle_length (matcher_find n ov) = sv_length n"
      by (simp add: matcher_find_def)
    from sz_find_Some[OF at] have "sv_length n \<le> sv_length r" using lenr lenn by simp
    moreover have "sv_length r < 2 ^ 64" using Suc.prems(1) lenr by (simp add: view_in_def)
    ultimately have deref: "matches_deref ?it = \<lparr>sv_start = sv_start r + 0, sv_length = sv_length n\<rparr>"
      by (simp add: matches_deref_def sn substr_pos_count_def size_sub_le)
    have st: "(if ov then 1 else length ?N) = skip_of ov n"
      by (simp add: skip_of_def lenn)
    have m1: "match_offsets ov ?H ?N = 0 # map ((+) (skip_of ov n)) (match_offsets ov X ?N)"
      using match_offsets_Some[OF at, of ov] unfolding st X_def by simp
    have m2: "match_offsets ov X ?N
                = map ((+) (trim_length X ?N)) (match_offsets ov (drop k ?H) ?N)"
      using trim_length_offsets[of ov X ?N] unfolding dk[symmetric] .
    have mo: "match_offsets ov ?H ?N = 0 # map ((+) k) (match_offsets ov (drop k ?H) ?N)"
      unfolding m1 m2 by (simp add: k_def comp_def add.assoc)
    show ?thesis
      using ne inc(1) IH deref by (simp add: mo comp_def add.assoc)
  qed
qed

lemma match_offsets_sorted: "sorted_wrt (<) (match_offsets ov X N)"
proof (induction ov X N rule: match_offsets.induct)
  case (1 ov H N)
  show ?case
  proof (cases "sz_find H N")
    case None
    then show ?thesis by (simp add: match_offsets_None)
  next
    case (Some p)
    let ?st = "if ov then 1 else length N"
    from sz_find_Some[OF Some] have "N \<noteq> []" by simp
    then have st: "0 < ?st" by simp
    have "sorted_wrt (<) (match_offsets ov (drop (p + ?st) H) N)"
      using "1.IH"[OF Some] .
    then have "sorted_wrt (<) (map ((+) (p + ?st)) (match_offsets ov (drop (p + ?st) H) N))"
      by (simp add: sorted_wrt_map)
    moreover have "\<forall>q \<in> set (map ((+) (p + ?st)) (match_offsets ov (drop (p + ?st) H) N)). p < q"
      using st by auto
    ultimately show ?thesis by (simp add: match_offsets_Some[OF Some])
  qed
qed

lemma find_all_run:
  assumes "view_in mem h" and "view_in mem n" and "sv_length h < fuel"
  shows "sv_find_all fuel mem h n ov
           = Some (map (\<lambda>q. \<lparr>sv_start = sv_start h + q, sv_length = sv_length n\<rparr>)
                     (match_offsets ov (view_bytes mem h) (view_bytes mem n)))"
proof -
  let ?H = "view_bytes mem h" and ?N = "view_bytes mem n"
  let ?m = "matcher_find n ov"
  define k where "k = trim_length ?H ?N"
  let ?r = "\<lparr>sv_start = sv_start h + k, sv_length = sv_length h - k\<rparr>"
  have lenh: "length ?H = sv_length h" using assms(1) by (rule view_bytes_length)
  have kle: "k \<le> sv_length h" using trim_length_le[of ?H ?N] lenh by (simp add: k_def)
  have lc: "locate mem ?m v = sv_find mem v n" for v
    by (simp add: matcher_find_def)
  have b: "matches_begin mem h ?m = Some \<lparr>mi_matcher = ?m, mi_remaining = ?r\<rparr>"
    using trim_remaining[OF assms(1,2)]
    by (simp add: matches_begin_def matches_iterator_def lc k_def Let_def)
  let ?z = "\<lparr>sv_start = sv_end h, sv_length = 0\<rparr>"
  have z: "view_in mem ?z" using assms(1) by (simp add: view_in_def sv_end_def)
  have "view_bytes mem ?z = []" by (simp add: view_bytes_def)
  then have "trim_length (view_bytes mem ?z) ?N = 0" by (simp add: trim_length_def)
  then have e: "matches_end mem h ?m = Some \<lparr>mi_matcher = ?m, mi_remaining = ?z\<rparr>"
    using trim_remaining[OF z assms(2)]
    by (simp add: matches_end_def matches_iterator_def lc Let_def)
  have r: "view_in mem ?r" using assms(1) kle by (rule view_in_drop)
  have br: "view_bytes mem ?r = drop k ?H" using assms(1) kle by (rule view_bytes_drop)
  have er: "sv_end ?r = sv_end h" using kle by (simp add: sv_end_def)
  have fuel: "sv_length ?r < fuel" using assms(3) by simp
  have inv: "view_bytes mem ?r = [] \<or> sz_find (view_bytes mem ?r) ?N = Some 0"
    unfolding br unfolding k_def by (rule trim_length_inv)
  have "matches_loop fuel mem \<lparr>mi_matcher = ?m, mi_remaining = ?r\<rparr>
          \<lparr>mi_matcher = ?m, mi_remaining = ?z\<rparr>
        = Some (map (\<lambda>q. \<lparr>sv_start = sv_start ?r + q, sv_length = sv_length n\<rparr>)
                 (match_offsets ov (drop k ?H) ?N))"
    using matches_loop_run[OF assms(2) r fuel inv, of ov ?m] unfolding er br .
  moreover have "match_offsets ov ?H ?N = map ((+) k) (match_offsets ov (drop k ?H) ?N)"
    unfolding k_def by (rule trim_length_offsets)
  ultimately show ?thesis
    using b e by (simp add: sv_find_all_def matches_to_def comp_def add.assoc)
qed


lemma split_gaps_None: "sz_find H D = None \<Longrightarrow> split_gaps H D = [H]"
  by (subst split_gaps.simps) simp

lemma split_gaps_Some:
  "sz_find H D = Some p \<Longrightarrow> split_gaps H D = take p H # split_gaps (drop (p + length D) H) D"
  by (subst split_gaps.simps) simp

lemma split_gaps_length: "length (split_gaps H D) = Suc (length (match_offsets False H D))"
proof (induction H D rule: split_gaps.induct)
  case (1 H D)
  show ?case
  proof (cases "sz_find H D")
    case None
    then show ?thesis by (simp add: split_gaps_None match_offsets_None)
  next
    case (Some p)
    then show ?thesis
      using "1.IH"[OF Some] by (simp add: split_gaps_Some match_offsets_Some)
  qed
qed

lemma split_gaps_not_Nil: "split_gaps H D \<noteq> []"
  using split_gaps_length[of H D] by auto

lemma join_Cons: "gs \<noteq> [] \<Longrightarrow> join D (g # gs) = g @ D @ join D gs"
  by (cases gs) simp_all

lemma join_split_gaps: "join D (split_gaps H D) = H"
proof (induction H D rule: split_gaps.induct)
  case (1 H D)
  show ?case
  proof (cases "sz_find H D")
    case None
    then show ?thesis by (simp add: split_gaps_None)
  next
    case (Some p)
    from sz_find_Some[OF Some] have "take (length D) (drop p H) = D" by simp
    then have "take p H @ D @ drop (p + length D) H = H"
      by (metis append_take_drop_id drop_drop add.commute)
    then show ?thesis
      using "1.IH"[OF Some] by (simp add: split_gaps_Some[OF Some] join_Cons split_gaps_not_Nil)
  qed
qed

lemma splits_loop_run:
  assumes d: "view_in mem d"
  shows "\<lbrakk>view_in mem r; sv_length r + 1 < fuel\<rbrakk>
         \<Longrightarrow> \<exists>vs. splits_loop fuel mem
                    \<lparr>si_matcher = matcher_find d True, si_remaining = r,
                     si_length_within_remaining = trim_length (view_bytes mem r) (view_bytes mem d),
                     si_reached_tail = False\<rparr>
                    \<lparr>si_matcher = m', si_remaining = \<lparr>sv_start = sv_end r, sv_length = 0\<rparr>,
                     si_length_within_remaining = junk, si_reached_tail = True\<rparr> = Some vs
                \<and> map (view_bytes mem) vs = split_gaps (view_bytes mem r) (view_bytes mem d)"
proof (induction fuel arbitrary: r)
  case 0
  then show ?case by simp
next
  case (Suc fuel)
  let ?D = "view_bytes mem d" and ?H = "view_bytes mem r"
  let ?m = "matcher_find d True"
  let ?it = "\<lparr>si_matcher = ?m, si_remaining = r,
              si_length_within_remaining = trim_length ?H ?D, si_reached_tail = False\<rparr>"
  let ?e = "\<lparr>si_matcher = m', si_remaining = \<lparr>sv_start = sv_end r, sv_length = 0\<rparr>,
             si_length_within_remaining = junk, si_reached_tail = True\<rparr>"
  have lenr: "length ?H = sv_length r" using Suc.prems(1) by (rule view_bytes_length)
  have lend: "length ?D = sv_length d" using d by (rule view_bytes_length)
  have lt: "sv_length r < 2 ^ 64" using Suc.prems(1) by (simp add: view_in_def)
  have nl: "needle_length ?m = sv_length d" by (simp add: matcher_find_def)
  have lc: "locate mem ?m v = sv_find mem v d" for v by (simp add: matcher_find_def)
  have ne: "splits_ne ?it ?e" by (simp add: splits_ne_def)
  have tl: "trim_length ?H ?D \<le> sv_length r" using trim_length_le[of ?H ?D] lenr by simp
  have deref: "splits_deref ?it = \<lparr>sv_start = sv_start r + 0, sv_length = trim_length ?H ?D\<rparr>"
    using tl lt by (simp add: splits_deref_def substr_pos_count_def size_sub_le)
  have bd: "view_bytes mem (splits_deref ?it) = take (trim_length ?H ?D) ?H"
    unfolding deref using view_bytes_window[OF Suc.prems(1), of 0 "trim_length ?H ?D"] tl by simp
  show ?case
  proof (cases "sz_find ?H ?D")
    case None
    then have t: "trim_length ?H ?D = sv_length r" by (simp add: trim_length_def lenr)
    let ?r1 = "\<lparr>sv_start = sv_start r + sv_length r, sv_length = 0\<rparr>"
    have "view_bytes mem ?r1 = []" by (simp add: view_bytes_def)
    then have "sv_find mem ?r1 d = None" by (simp add: sv_find_def)
    then have inc: "splits_increment mem ?it
                 = Some \<lparr>si_matcher = ?m, si_remaining = ?r1,
                         si_length_within_remaining = 0, si_reached_tail = True\<rparr>"
      by (simp add: splits_increment_def t remove_prefix_def sv_empty_def lc Let_def)
    have "0 < fuel" using Suc.prems(2) by simp
    then obtain f where f: "fuel = Suc f" by (cases fuel) auto
    have "splits_loop fuel mem \<lparr>si_matcher = ?m, si_remaining = ?r1,
                         si_length_within_remaining = 0, si_reached_tail = True\<rparr> ?e = Some []"
      unfolding f by (simp add: splits_ne_def sv_begin_def sv_end_def)
    then have "splits_loop (Suc fuel) mem ?it ?e = Some [splits_deref ?it]"
      using ne inc by simp
    moreover have "[view_bytes mem (splits_deref ?it)] = split_gaps ?H ?D"
      using bd t lenr by (simp add: split_gaps_None[OF None])
    ultimately show ?thesis by simp
  next
    case (Some p)
    then have t: "trim_length ?H ?D = p" by (simp add: trim_length_def)
    from sz_find_Some[OF Some] have "0 < length ?D" and "p + length ?D \<le> length ?H" by simp_all
    then have pd: "0 < sv_length d" "p + sv_length d \<le> sv_length r" using lenr lend by simp_all
    let ?r2 = "\<lparr>sv_start = sv_start r + (p + sv_length d),
                sv_length = sv_length r - (p + sv_length d)\<rparr>"
    have r2: "view_in mem ?r2" using Suc.prems(1) pd(2) by (rule view_in_drop)
    have b2: "view_bytes mem ?r2 = drop (p + length ?D) ?H"
      using view_bytes_drop[OF Suc.prems(1) pd(2)] lend by simp
    have "(case sv_find mem ?r2 d of None \<Rightarrow> sv_length ?r2 | Some q \<Rightarrow> q)
          = trim_length (view_bytes mem ?r2) ?D"
      using view_bytes_length[OF r2] by (simp add: trim_length_def sv_find_def split: option.split)
    then have inc: "splits_increment mem ?it
                 = Some \<lparr>si_matcher = ?m, si_remaining = ?r2,
                         si_length_within_remaining = trim_length (view_bytes mem ?r2) ?D,
                         si_reached_tail = False\<rparr>"
      using pd by (simp add: splits_increment_def t remove_prefix_def sv_empty_def lc nl Let_def add.assoc)
    have e2: "sv_end ?r2 = sv_end r" using pd(2) by (simp add: sv_end_def)
    have fuel: "sv_length ?r2 + 1 < fuel" using pd Suc.prems(2) by simp
    from Suc.IH[OF r2 fuel] obtain vs where
      vs: "splits_loop fuel mem \<lparr>si_matcher = ?m, si_remaining = ?r2,
                         si_length_within_remaining = trim_length (view_bytes mem ?r2) ?D,
                         si_reached_tail = False\<rparr> ?e = Some vs"
        "map (view_bytes mem) vs = split_gaps (drop (p + length ?D) ?H) ?D"
      unfolding e2 b2 by blast
    have "splits_loop (Suc fuel) mem ?it ?e = Some (splits_deref ?it # vs)"
      using ne inc vs(1) by simp
    moreover have "map (view_bytes mem) (splits_deref ?it # vs) = split_gaps ?H ?D"
      using bd t vs(2) by (simp add: split_gaps_Some[OF Some])
    ultimately show ?thesis by blast
  qed
qed

lemma split_run:
  assumes "view_in mem h" and "view_in mem d" and "sv_length h + 1 < fuel"
  shows "\<exists>vs. sv_split fuel mem h d junk = Some vs
              \<and> map (view_bytes mem) vs = split_gaps (view_bytes mem h) (view_bytes mem d)"
proof -
  have "splits_begin mem h (matcher_find d True)
        = \<lparr>si_matcher = matcher_find d True, si_remaining = h,
           si_length_within_remaining = trim_length (view_bytes mem h) (view_bytes mem d),
           si_reached_tail = False\<rparr>"
    using view_bytes_length[OF assms(1)]
    by (simp add: splits_begin_def splits_iterator_def matcher_find_def trim_length_def sv_find_def
        split: option.split)
  moreover have "splits_end h (matcher_find d True) junk
        = \<lparr>si_matcher = matcher_find d True,
           si_remaining = \<lparr>sv_start = sv_end h, sv_length = 0\<rparr>,
           si_length_within_remaining = junk, si_reached_tail = True\<rparr>"
    by (simp add: splits_end_def splits_iterator_sentinel_def)
  ultimately show ?thesis
    using splits_loop_run[OF assms(2) assms(1) assms(3), of "matcher_find d True" junk]
    by (simp add: sv_split_def splits_to_def)
qed

lemma splits_loop_no_match:
  assumes "view_in mem h" and "sv_find mem h d = None"
  shows "sv_split (Suc (Suc fuel)) mem h d junk = Some [h]"
proof -
  let ?m = "matcher_find d True"
  let ?z = "\<lparr>sv_start = sv_start h + sv_length h, sv_length = 0\<rparr>"
  let ?b = "\<lparr>si_matcher = ?m, si_remaining = h, si_length_within_remaining = sv_length h,
             si_reached_tail = False\<rparr>"
  let ?e = "\<lparr>si_matcher = ?m, si_remaining = ?z, si_length_within_remaining = junk,
             si_reached_tail = True\<rparr>"
  have lc: "locate mem ?m v = sv_find mem v d" for v by (simp add: matcher_find_def)
  have lt: "sv_length h < 2 ^ 64" using assms(1) by (simp add: view_in_def)
  have b: "splits_begin mem h ?m = ?b"
    using assms(2) by (simp add: splits_begin_def splits_iterator_def lc Let_def)
  have e: "splits_end h ?m junk = ?e"
    by (simp add: splits_end_def splits_iterator_sentinel_def sv_end_def)
  have "view_bytes mem ?z = []" by (simp add: view_bytes_def)
  then have "sv_find mem ?z d = None" by (simp add: sv_find_def)
  then have inc: "splits_increment mem ?b
      = Some \<lparr>si_matcher = ?m, si_remaining = ?z, si_length_within_remaining = 0,
              si_reached_tail = True\<rparr>"
    by (simp add: splits_increment_def remove_prefix_def sv_empty_def lc Let_def)
  have deref: "splits_deref ?b = h"
    using lt by (simp add: splits_deref_def substr_pos_count_def size_sub_le)
  have "splits_loop (Suc (Suc fuel)) mem ?b ?e = Some [h]"
    using inc deref by (simp add: splits_ne_def sv_begin_def)
  then show ?thesis by (simp add: sv_split_def splits_to_def b e)
qed

subsection \<open>Evaluation on small inputs\<close>

lemma match_offsets_aaaa_overlapping: "match_offsets True ''aaaa'' ''aa'' = [0, 1, 2]"
  apply (subst match_offsets.simps, simp)
  apply (subst match_offsets.simps, simp)
  apply (subst match_offsets.simps, simp)
  apply (subst match_offsets.simps, simp)
  done

lemma match_offsets_aaaa_disjoint: "match_offsets False ''aaaa'' ''aa'' = [0, 2]"
  apply (subst match_offsets.simps, simp)
  apply (subst match_offsets.simps, simp)
  apply (subst match_offsets.simps, simp)
  done

lemma match_offsets_a_comma: "match_offsets False ''a,'' '','' = [1]"
  apply (subst match_offsets.simps, simp)
  apply (subst match_offsets.simps, simp)
  done

lemma match_offsets_empty: "match_offsets False [] '','' = []"
  by (subst match_offsets.simps) simp

lemma splits_loop_unfold:
  "0 < fuel \<Longrightarrow> splits_loop fuel mem it e =
     (if splits_ne it e
      then (case splits_increment mem it of
              None \<Rightarrow> None
            | Some it' \<Rightarrow> map_option ((#) (splits_deref it)) (splits_loop (fuel - 1) mem it' e))
      else Some [])"
  by (cases fuel) (auto split: option.split)

lemmas splits_eval = sv_split_def splits_to_def splits_begin_def splits_end_def splits_iterator_def
  splits_iterator_sentinel_def splits_increment_def splits_deref_def splits_ne_def splits_eq_def
  matcher_find_def sv_find_def view_bytes_def remove_prefix_def substr_pos_count_def size_sub_def
  sv_begin_def sv_end_def sv_empty_def

section \<open>The claims about the ranges\<close>

text \<open>
  C5. Forward \<^verbatim>\<open>find_all\<close> with a substring needle yields the matches at the
  offsets \<open>match_offsets\<close> lists: the first occurrence, then the first one
  at or after 1 byte past the previous match start when overlaps are allowed,
  and at or after the needle length past it when they are not. The offsets are
  strictly increasing. On \<^verbatim>\<open>"aaaa"\<close> with needle \<^verbatim>\<open>"aa"\<close> the offsets are
  \<open>[0, 1, 2]\<close> with overlaps and \<open>[0, 2]\<close> without.
\<close>

theorem find_all_offsets:
  assumes "view_in mem h" and "view_in mem n" and "sv_length h < fuel"
  shows "sv_find_all fuel mem h n ov
           = Some (map (\<lambda>q. \<lparr>sv_start = sv_start h + q, sv_length = sv_length n\<rparr>)
                     (match_offsets ov (view_bytes mem h) (view_bytes mem n)))
         \<and> sorted_wrt (<) (match_offsets ov (view_bytes mem h) (view_bytes mem n))"
  using find_all_run[OF assms] match_offsets_sorted by simp

theorem find_all_offsets_witness:
  "view_in ''aaaaaa'' \<lparr>sv_start = 0, sv_length = 4\<rparr>
   \<and> view_in ''aaaaaa'' \<lparr>sv_start = 4, sv_length = 2\<rparr>
   \<and> sv_length \<lparr>sv_start = 0, sv_length = 4\<rparr> < (5::nat)
   \<and> sv_find_all 5 ''aaaaaa'' \<lparr>sv_start = 0, sv_length = 4\<rparr> \<lparr>sv_start = 4, sv_length = 2\<rparr> True
       = Some [\<lparr>sv_start = 0, sv_length = 2\<rparr>, \<lparr>sv_start = 1, sv_length = 2\<rparr>,
               \<lparr>sv_start = 2, sv_length = 2\<rparr>]
   \<and> sv_find_all 5 ''aaaaaa'' \<lparr>sv_start = 0, sv_length = 4\<rparr> \<lparr>sv_start = 4, sv_length = 2\<rparr> False
       = Some [\<lparr>sv_start = 0, sv_length = 2\<rparr>, \<lparr>sv_start = 2, sv_length = 2\<rparr>]"
proof -
  have h: "view_in ''aaaaaa'' \<lparr>sv_start = 0, sv_length = 4\<rparr>" by (simp add: view_in_def)
  have n: "view_in ''aaaaaa'' \<lparr>sv_start = 4, sv_length = 2\<rparr>" by (simp add: view_in_def)
  have f: "sv_length \<lparr>sv_start = 0, sv_length = 4\<rparr> < (5::nat)" by simp
  have vh: "view_bytes ''aaaaaa'' \<lparr>sv_start = 0, sv_length = 4\<rparr> = ''aaaa''"
    by (simp add: view_bytes_def)
  have vn: "view_bytes ''aaaaaa'' \<lparr>sv_start = 4, sv_length = 2\<rparr> = ''aa''"
    by (simp add: view_bytes_def)
  show ?thesis
    using find_all_offsets[OF h n f, of True] find_all_offsets[OF h n f, of False] h n
    unfolding vh vn match_offsets_aaaa_overlapping match_offsets_aaaa_disjoint
    by simp
qed

text \<open>
  C6. The forward split range is never empty and yields \<open>N + 1\<close> gaps, where
  \<open>N\<close> is the number of matches of the delimiter that a scan without overlaps
  finds (the number of elements of \<^verbatim>\<open>find_all\<close> without overlaps).
  \<^verbatim>\<open>"".split(",")\<close> yields the empty slice alone, and \<^verbatim>\<open>"a,".split(",")\<close>
  yields \<^verbatim>\<open>"a"\<close> and the empty slice.
\<close>

theorem split_count:
  assumes "view_in mem h" and "view_in mem d" and "sv_length h + 1 < fuel"
  shows "\<exists>vs ms. sv_split fuel mem h d junk = Some vs
           \<and> sv_find_all fuel mem h d False = Some ms
           \<and> vs \<noteq> []
           \<and> length vs = length ms + 1
           \<and> length ms = length (match_offsets False (view_bytes mem h) (view_bytes mem d))"
proof -
  from split_run[OF assms, of junk] obtain vs where
    vs: "sv_split fuel mem h d junk = Some vs"
        "map (view_bytes mem) vs = split_gaps (view_bytes mem h) (view_bytes mem d)"
    by blast
  have "length vs = length (split_gaps (view_bytes mem h) (view_bytes mem d))"
    using vs(2) by (metis length_map)
  then have len: "length vs = Suc (length (match_offsets False (view_bytes mem h) (view_bytes mem d)))"
    by (simp add: split_gaps_length)
  have "sv_length h < fuel" using assms(3) by simp
  from find_all_run[OF assms(1,2) this, of False] len vs(1) show ?thesis by auto
qed

theorem split_count_witness:
  "view_in ''a,,'' \<lparr>sv_start = 0, sv_length = 2\<rparr>
   \<and> view_in ''a,,'' \<lparr>sv_start = 0, sv_length = 0\<rparr>
   \<and> view_in ''a,,'' \<lparr>sv_start = 2, sv_length = 1\<rparr>
   \<and> sv_length \<lparr>sv_start = 0, sv_length = 2\<rparr> + 1 < (4::nat)
   \<and> sv_length \<lparr>sv_start = 0, sv_length = 0\<rparr> + 1 < (4::nat)
   \<and> sv_split 4 ''a,,'' \<lparr>sv_start = 0, sv_length = 2\<rparr> \<lparr>sv_start = 2, sv_length = 1\<rparr> 0
       = Some [\<lparr>sv_start = 0, sv_length = 1\<rparr>, \<lparr>sv_start = 2, sv_length = 0\<rparr>]
   \<and> length [\<lparr>sv_start = 0, sv_length = 1\<rparr>, \<lparr>sv_start = 2, sv_length = 0\<rparr>]
       = length (match_offsets False ''a,'' '','') + 1
   \<and> sv_split 4 ''a,,'' \<lparr>sv_start = 0, sv_length = 0\<rparr> \<lparr>sv_start = 2, sv_length = 1\<rparr> 0
       = Some [\<lparr>sv_start = 0, sv_length = 0\<rparr>]
   \<and> length [\<lparr>sv_start = 0, sv_length = 0\<rparr>] = length (match_offsets False [] '','') + 1
   \<and> map (view_bytes ''a,,'') [\<lparr>sv_start = 0, sv_length = 1\<rparr>, \<lparr>sv_start = 2, sv_length = 0\<rparr>]
       = [''a'', '''']"
proof -
  have h: "view_in ''a,,'' \<lparr>sv_start = 0, sv_length = 2\<rparr>" by (simp add: view_in_def)
  have z: "view_in ''a,,'' \<lparr>sv_start = 0, sv_length = 0\<rparr>" by (simp add: view_in_def)
  have d: "view_in ''a,,'' \<lparr>sv_start = 2, sv_length = 1\<rparr>" by (simp add: view_in_def)
  have f: "sv_length \<lparr>sv_start = 0, sv_length = 2\<rparr> + 1 < (4::nat)" by simp
  have g: "sv_length \<lparr>sv_start = 0, sv_length = 0\<rparr> + 1 < (4::nat)" by simp
  have vh: "view_bytes ''a,,'' \<lparr>sv_start = 0, sv_length = 2\<rparr> = ''a,''"
    by (simp add: view_bytes_def)
  have vz: "view_bytes ''a,,'' \<lparr>sv_start = 0, sv_length = 0\<rparr> = []"
    by (simp add: view_bytes_def)
  have vd: "view_bytes ''a,,'' \<lparr>sv_start = 2, sv_length = 1\<rparr> = '',''"
    by (simp add: view_bytes_def)
  have e1: "sv_split 4 ''a,,'' \<lparr>sv_start = 0, sv_length = 2\<rparr> \<lparr>sv_start = 2, sv_length = 1\<rparr> 0
       = Some [\<lparr>sv_start = 0, sv_length = 1\<rparr>, \<lparr>sv_start = 2, sv_length = 0\<rparr>]"
    by (simp add: splits_eval splits_loop_unfold)
  have e2: "sv_split 4 ''a,,'' \<lparr>sv_start = 0, sv_length = 0\<rparr> \<lparr>sv_start = 2, sv_length = 1\<rparr> 0
       = Some [\<lparr>sv_start = 0, sv_length = 0\<rparr>]"
    by (simp add: splits_eval splits_loop_unfold)
  have c1: "length [\<lparr>sv_start = 0, sv_length = 1\<rparr>, \<lparr>sv_start = 2, sv_length = 0\<rparr>]
       = length (match_offsets False ''a,'' '','') + 1"
    using split_count[OF h d f, of 0] unfolding e1 vh vd by auto
  have c2: "length [\<lparr>sv_start = 0, sv_length = 0\<rparr>] = length (match_offsets False [] '','') + 1"
    using split_count[OF z d g, of 0] unfolding e2 vz vd by auto
  have b: "map (view_bytes ''a,,'') [\<lparr>sv_start = 0, sv_length = 1\<rparr>, \<lparr>sv_start = 2, sv_length = 0\<rparr>]
       = [''a'', '''']"
    by (simp add: view_bytes_def)
  show ?thesis using h z d f g e1 e2 c1 c2 b by blast
qed

text \<open>
  C7. Concatenating the gaps that \<^verbatim>\<open>H.split(D)\<close> yields, in order, with one
  copy of \<open>D\<close> between consecutive gaps gives \<open>H\<close> back; when \<open>D\<close> has no
  match in \<open>H\<close> the range yields \<open>H\<close> alone.
\<close>

theorem split_join:
  assumes "view_in mem h" and "view_in mem d" and "sv_length h + 1 < fuel"
  shows "\<exists>vs. sv_split fuel mem h d junk = Some vs
           \<and> join (view_bytes mem d) (map (view_bytes mem) vs) = view_bytes mem h
           \<and> (sv_find mem h d = None \<longrightarrow> vs = [h])"
proof -
  from split_run[OF assms, of junk] obtain vs where
    vs: "sv_split fuel mem h d junk = Some vs"
        "map (view_bytes mem) vs = split_gaps (view_bytes mem h) (view_bytes mem d)"
    by blast
  have j: "join (view_bytes mem d) (map (view_bytes mem) vs) = view_bytes mem h"
    unfolding vs(2) by (rule join_split_gaps)
  obtain f where f: "fuel = Suc (Suc f)"
    using assms(3) by (cases fuel; cases "fuel - 1") auto
  have n: "sv_find mem h d = None \<longrightarrow> vs = [h]"
    using splits_loop_no_match[OF assms(1), of d f junk] vs(1) unfolding f by auto
  show ?thesis
  proof (intro exI conjI)
    show "sv_split fuel mem h d junk = Some vs" by (rule vs(1))
    show "join (view_bytes mem d) (map (view_bytes mem) vs) = view_bytes mem h" by (rule j)
    show "sv_find mem h d = None \<longrightarrow> vs = [h]" by (rule n)
  qed
qed

theorem split_join_witness:
  "view_in ''a,b,'' \<lparr>sv_start = 0, sv_length = 3\<rparr>
   \<and> view_in ''a,b,'' \<lparr>sv_start = 3, sv_length = 1\<rparr>
   \<and> sv_length \<lparr>sv_start = 0, sv_length = 3\<rparr> + 1 < (5::nat)
   \<and> sv_split 5 ''a,b,'' \<lparr>sv_start = 0, sv_length = 3\<rparr> \<lparr>sv_start = 3, sv_length = 1\<rparr> 0
       = Some [\<lparr>sv_start = 0, sv_length = 1\<rparr>, \<lparr>sv_start = 2, sv_length = 1\<rparr>]
   \<and> join (view_bytes ''a,b,'' \<lparr>sv_start = 3, sv_length = 1\<rparr>)
        (map (view_bytes ''a,b,'') [\<lparr>sv_start = 0, sv_length = 1\<rparr>, \<lparr>sv_start = 2, sv_length = 1\<rparr>])
       = view_bytes ''a,b,'' \<lparr>sv_start = 0, sv_length = 3\<rparr>
   \<and> view_bytes ''a,b,'' \<lparr>sv_start = 0, sv_length = 3\<rparr> = ''a,b''"
proof -
  have h: "view_in ''a,b,'' \<lparr>sv_start = 0, sv_length = 3\<rparr>" by (simp add: view_in_def)
  have d: "view_in ''a,b,'' \<lparr>sv_start = 3, sv_length = 1\<rparr>" by (simp add: view_in_def)
  have f: "sv_length \<lparr>sv_start = 0, sv_length = 3\<rparr> + 1 < (5::nat)" by simp
  have e: "sv_split 5 ''a,b,'' \<lparr>sv_start = 0, sv_length = 3\<rparr> \<lparr>sv_start = 3, sv_length = 1\<rparr> 0
       = Some [\<lparr>sv_start = 0, sv_length = 1\<rparr>, \<lparr>sv_start = 2, sv_length = 1\<rparr>]"
    by (simp add: splits_eval splits_loop_unfold)
  have v: "view_bytes ''a,b,'' \<lparr>sv_start = 0, sv_length = 3\<rparr> = ''a,b''"
    by (simp add: view_bytes_def)
  have j: "join (view_bytes ''a,b,'' \<lparr>sv_start = 3, sv_length = 1\<rparr>)
        (map (view_bytes ''a,b,'') [\<lparr>sv_start = 0, sv_length = 1\<rparr>, \<lparr>sv_start = 2, sv_length = 1\<rparr>])
       = view_bytes ''a,b,'' \<lparr>sv_start = 0, sv_length = 3\<rparr>"
    using split_join[OF h d f, of 0] unfolding e by auto
  show ?thesis using h d f e j v by blast
qed

section \<open>Iterator equality\<close>

text \<open>
  The iterators of a range: those that \<^verbatim>\<open>begin()\<close> and \<^verbatim>\<open>end()\<close> return, and
  those reached from them by \<^verbatim>\<open>operator++\<close>.
\<close>

inductive matches_derived :: "string \<Rightarrow> string_view \<Rightarrow> matcher \<Rightarrow> match_iterator \<Rightarrow> bool"
  for mem h m where
    matches_from_begin: "matches_begin mem h m = Some it \<Longrightarrow> matches_derived mem h m it"
  | matches_from_end: "matches_end mem h m = Some it \<Longrightarrow> matches_derived mem h m it"
  | matches_step:
      "matches_derived mem h m it \<Longrightarrow> matches_increment mem it = Some it'
       \<Longrightarrow> matches_derived mem h m it'"

inductive rmatches_derived :: "string \<Rightarrow> string_view \<Rightarrow> matcher \<Rightarrow> match_iterator \<Rightarrow> bool"
  for mem h m where
    rmatches_from_begin: "rmatches_begin mem h m = Some it \<Longrightarrow> rmatches_derived mem h m it"
  | rmatches_from_end: "rmatches_end mem h m = Some it \<Longrightarrow> rmatches_derived mem h m it"
  | rmatches_step:
      "rmatches_derived mem h m it \<Longrightarrow> rmatches_increment mem it = Some it'
       \<Longrightarrow> rmatches_derived mem h m it'"

inductive splits_derived ::
  "string \<Rightarrow> string_view \<Rightarrow> matcher \<Rightarrow> nat \<Rightarrow> split_iterator \<Rightarrow> bool"
  for mem h m junk where
    splits_from_begin: "splits_derived mem h m junk (splits_begin mem h m)"
  | splits_from_end: "splits_derived mem h m junk (splits_end h m junk)"
  | splits_step:
      "splits_derived mem h m junk it \<Longrightarrow> splits_increment mem it = Some it'
       \<Longrightarrow> splits_derived mem h m junk it'"

inductive rsplits_derived ::
  "string \<Rightarrow> string_view \<Rightarrow> matcher \<Rightarrow> nat \<Rightarrow> split_iterator \<Rightarrow> bool"
  for mem h m junk where
    rsplits_from_begin: "rsplits_derived mem h m junk (rsplits_begin mem h m)"
  | rsplits_from_end: "rsplits_derived mem h m junk (rsplits_end h m junk)"
  | rsplits_step:
      "rsplits_derived mem h m junk it \<Longrightarrow> rsplits_increment mem it = Some it'
       \<Longrightarrow> rsplits_derived mem h m junk it'"

lemma remove_prefix_end: "remove_prefix k v = Some r \<Longrightarrow> sv_end r = sv_end v"
  by (auto simp: remove_prefix_def sv_end_def split: if_splits)

lemma remove_suffix_begin: "remove_suffix k v = Some r \<Longrightarrow> sv_begin r = sv_begin v"
  by (auto simp: remove_suffix_def sv_begin_def split: if_splits)

lemma matches_derived_end:
  "matches_derived mem h m it \<Longrightarrow> sv_end (mi_remaining it) = sv_end h"
proof (induction rule: matches_derived.induct)
  case (matches_from_begin it)
  then show ?case
    by (auto simp: matches_begin_def matches_iterator_def Let_def dest: remove_prefix_end)
next
  case (matches_from_end it)
  then have "sv_end (mi_remaining it) = sv_end \<lparr>sv_start = sv_end h, sv_length = 0\<rparr>"
    by (auto simp: matches_end_def matches_iterator_def Let_def dest: remove_prefix_end)
  then show ?case by (simp add: sv_end_def)
next
  case (matches_step it it')
  from matches_step.hyps(2) obtain r1 r2 where
    "remove_prefix (skip_length (mi_matcher it)) (mi_remaining it) = Some r1"
    "remove_prefix (case locate mem (mi_matcher it) r1 of Some p \<Rightarrow> p | None \<Rightarrow> sv_length r1) r1 = Some r2"
    "it' = it\<lparr>mi_remaining := r2\<rparr>"
    by (auto simp: matches_increment_def Let_def split: option.splits)
  then show ?case using matches_step.IH by (auto dest!: remove_prefix_end)
qed

lemma rmatches_derived_begin:
  "rmatches_derived mem h m it \<Longrightarrow> sv_begin (mi_remaining it) = sv_begin h"
proof (induction rule: rmatches_derived.induct)
  case (rmatches_from_begin it)
  then show ?case
    by (auto simp: rmatches_begin_def rmatches_iterator_def Let_def dest: remove_suffix_begin)
next
  case (rmatches_from_end it)
  then have "sv_begin (mi_remaining it) = sv_begin \<lparr>sv_start = sv_begin h, sv_length = 0\<rparr>"
    by (auto simp: rmatches_end_def rmatches_iterator_def Let_def dest: remove_suffix_begin)
  then show ?case by (simp add: sv_begin_def)
next
  case (rmatches_step it it')
  from rmatches_step.hyps(2) obtain r1 r2 k where
    "remove_suffix (skip_length (mi_matcher it)) (mi_remaining it) = Some r1"
    "remove_suffix k r1 = Some r2"
    "it' = it\<lparr>mi_remaining := r2\<rparr>"
    by (auto simp: rmatches_increment_def Let_def split: option.splits)
  then show ?case using rmatches_step.IH by (auto dest!: remove_suffix_begin)
qed

lemma splits_derived_end:
  "splits_derived mem h m junk it \<Longrightarrow> sv_end (si_remaining it) = sv_end h"
proof (induction rule: splits_derived.induct)
  case splits_from_begin
  show ?case by (simp add: splits_begin_def splits_iterator_def Let_def)
next
  case splits_from_end
  show ?case by (simp add: splits_end_def splits_iterator_sentinel_def sv_end_def)
next
  case (splits_step it it')
  from splits_step.hyps(2) obtain r1 r2 k where
    "remove_prefix (si_length_within_remaining it) (si_remaining it) = Some r1"
    "remove_prefix k r1 = Some r2"
    "si_remaining it' = r2"
    by (auto simp: splits_increment_def Let_def split: option.splits)
  then show ?case using splits_step.IH by (auto dest!: remove_prefix_end)
qed

lemma rsplits_derived_begin:
  "rsplits_derived mem h m junk it \<Longrightarrow> sv_begin (si_remaining it) = sv_begin h"
proof (induction rule: rsplits_derived.induct)
  case rsplits_from_begin
  show ?case by (simp add: rsplits_begin_def rsplits_iterator_def Let_def)
next
  case rsplits_from_end
  show ?case by (simp add: rsplits_end_def splits_iterator_sentinel_def sv_begin_def)
next
  case (rsplits_step it it')
  from rsplits_step.hyps(2) obtain r1 r2 k where
    "remove_suffix (si_length_within_remaining it) (si_remaining it) = Some r1"
    "remove_suffix k r1 = Some r2"
    "si_remaining it' = r2"
    by (auto simp: rsplits_increment_def Let_def split: option.splits)
  then show ?case using rsplits_step.IH by (auto dest!: remove_suffix_begin)
qed

lemma view_eq_by_start:
  "sv_end v = sv_end w \<Longrightarrow> (sv_begin v = sv_begin w) = (v = w)"
  by (cases v; cases w) (auto simp: sv_end_def sv_begin_def)

lemma view_eq_by_end:
  "sv_begin v = sv_begin w \<Longrightarrow> (sv_end v = sv_end w) = (v = w)"
  by (cases v; cases w) (auto simp: sv_end_def sv_begin_def)

text \<open>
  C9, as amended. For two iterators derived from the same haystack and matcher
  by increments from \<^verbatim>\<open>begin()\<close> or \<^verbatim>\<open>end()\<close>: match-range iterators
  compare equal iff the start pointers of their remaining slices coincide (the
  end pointers, for the reverse range), and split-range iterators compare equal
  iff those pointers coincide and their \<^verbatim>\<open>reached_tail_\<close> flags agree. The
  comparison reads no byte of memory, and iterators that compare equal have the
  same remaining slice.
\<close>

theorem iterator_equality:
  assumes "matches_derived mem h m a" and "matches_derived mem h m b"
    and "rmatches_derived mem h rm ra" and "rmatches_derived mem h rm rb"
    and "splits_derived mem h m junk c" and "splits_derived mem h m junk d"
    and "rsplits_derived mem h rm junk rc" and "rsplits_derived mem h rm junk rd"
  shows "(matches_eq a b \<longleftrightarrow> sv_begin (mi_remaining a) = sv_begin (mi_remaining b))
       \<and> (matches_eq a b \<longleftrightarrow> mi_remaining a = mi_remaining b)
       \<and> (rmatches_eq ra rb \<longleftrightarrow> sv_end (mi_remaining ra) = sv_end (mi_remaining rb))
       \<and> (rmatches_eq ra rb \<longleftrightarrow> mi_remaining ra = mi_remaining rb)
       \<and> (splits_eq c d \<longleftrightarrow>
            sv_begin (si_remaining c) = sv_begin (si_remaining d)
            \<and> si_reached_tail c = si_reached_tail d)
       \<and> (splits_eq c d \<longleftrightarrow>
            si_remaining c = si_remaining d \<and> si_reached_tail c = si_reached_tail d)
       \<and> (rsplits_eq rc rd \<longleftrightarrow>
            sv_end (si_remaining rc) = sv_end (si_remaining rd)
            \<and> si_reached_tail rc = si_reached_tail rd)
       \<and> (rsplits_eq rc rd \<longleftrightarrow>
            si_remaining rc = si_remaining rd \<and> si_reached_tail rc = si_reached_tail rd)"
proof -
  have 1: "sv_end (mi_remaining a) = sv_end (mi_remaining b)"
    using assms(1,2) by (simp add: matches_derived_end)
  have 2: "sv_begin (mi_remaining ra) = sv_begin (mi_remaining rb)"
    using assms(3,4) by (simp add: rmatches_derived_begin)
  have 3: "sv_end (si_remaining c) = sv_end (si_remaining d)"
    using assms(5,6) by (simp add: splits_derived_end)
  have 4: "sv_begin (si_remaining rc) = sv_begin (si_remaining rd)"
    using assms(7,8) by (simp add: rsplits_derived_begin)
  show ?thesis
    unfolding matches_eq_def rmatches_eq_def splits_eq_def rsplits_eq_def
    using view_eq_by_start[OF 1] view_eq_by_end[OF 2] view_eq_by_start[OF 3] view_eq_by_end[OF 4]
    by simp
qed

text \<open>
  C9, as stated, fails for split ranges. Over \<^verbatim>\<open>"a,"\<close> split at \<^verbatim>\<open>","\<close>, the
  iterator one increment after \<^verbatim>\<open>begin()\<close> stands on the trailing empty gap:
  its remaining slice starts where that of \<^verbatim>\<open>end()\<close> starts, and the two
  compare unequal, because \<^verbatim>\<open>reached_tail_\<close> differs.
\<close>

theorem split_iterators_differ_at_same_start:
  "splits_derived ''a,,'' \<lparr>sv_start = 0, sv_length = 2\<rparr>
     (matcher_find \<lparr>sv_start = 2, sv_length = 1\<rparr> True) 0
     \<lparr>si_matcher = matcher_find \<lparr>sv_start = 2, sv_length = 1\<rparr> True,
      si_remaining = \<lparr>sv_start = 2, sv_length = 0\<rparr>,
      si_length_within_remaining = 0, si_reached_tail = False\<rparr>
   \<and> splits_derived ''a,,'' \<lparr>sv_start = 0, sv_length = 2\<rparr>
     (matcher_find \<lparr>sv_start = 2, sv_length = 1\<rparr> True) 0
     \<lparr>si_matcher = matcher_find \<lparr>sv_start = 2, sv_length = 1\<rparr> True,
      si_remaining = \<lparr>sv_start = 2, sv_length = 0\<rparr>,
      si_length_within_remaining = 0, si_reached_tail = True\<rparr>
   \<and> sv_begin \<lparr>sv_start = 2, sv_length = 0\<rparr> = sv_begin \<lparr>sv_start = 2, sv_length = 0\<rparr>
   \<and> \<not> splits_eq
       \<lparr>si_matcher = matcher_find \<lparr>sv_start = 2, sv_length = 1\<rparr> True,
        si_remaining = \<lparr>sv_start = 2, sv_length = 0\<rparr>,
        si_length_within_remaining = 0, si_reached_tail = False\<rparr>
       \<lparr>si_matcher = matcher_find \<lparr>sv_start = 2, sv_length = 1\<rparr> True,
        si_remaining = \<lparr>sv_start = 2, sv_length = 0\<rparr>,
        si_length_within_remaining = 0, si_reached_tail = True\<rparr>"
proof -
  let ?mem = "''a,,''" and ?h = "\<lparr>sv_start = 0, sv_length = 2\<rparr>"
  let ?m = "matcher_find \<lparr>sv_start = 2, sv_length = 1\<rparr> True"
  let ?a = "\<lparr>si_matcher = ?m, si_remaining = \<lparr>sv_start = 2, sv_length = 0\<rparr>,
             si_length_within_remaining = 0, si_reached_tail = False\<rparr>"
  let ?e = "\<lparr>si_matcher = ?m, si_remaining = \<lparr>sv_start = 2, sv_length = 0\<rparr>,
             si_length_within_remaining = 0, si_reached_tail = True\<rparr>"
  have "splits_increment ?mem (splits_begin ?mem ?h ?m) = Some ?a"
    by (simp add: splits_eval Let_def)
  then have a: "splits_derived ?mem ?h ?m 0 ?a"
    using splits_from_begin[of ?mem ?h ?m 0] by (rule splits_step[rotated])
  have "splits_end ?h ?m 0 = ?e"
    by (simp add: splits_end_def splits_iterator_sentinel_def sv_end_def)
  then have e: "splits_derived ?mem ?h ?m 0 ?e"
    using splits_from_end[of ?mem ?h ?m 0] by simp
  have "\<not> splits_eq ?a ?e" by (simp add: splits_eq_def)
  with a e show ?thesis by simp
qed

lemmas matches_eval = matches_begin_def matches_end_def matches_iterator_def matches_eq_def
  rmatches_begin_def rmatches_end_def rmatches_iterator_def rmatches_eq_def rsplits_eq_def
  matcher_find_def matcher_rfind_def sv_find_def sv_rfind_def view_bytes_def remove_prefix_def
  remove_suffix_def size_sub_def sv_begin_def sv_end_def

theorem iterator_equality_witness:
  "matches_derived ''a,,'' \<lparr>sv_start = 0, sv_length = 2\<rparr> (matcher_find \<lparr>sv_start = 2, sv_length = 1\<rparr> True)
     \<lparr>mi_matcher = matcher_find \<lparr>sv_start = 2, sv_length = 1\<rparr> True, mi_remaining = \<lparr>sv_start = 1, sv_length = 1\<rparr>\<rparr>
   \<and> matches_derived ''a,,'' \<lparr>sv_start = 0, sv_length = 2\<rparr> (matcher_find \<lparr>sv_start = 2, sv_length = 1\<rparr> True)
     \<lparr>mi_matcher = matcher_find \<lparr>sv_start = 2, sv_length = 1\<rparr> True, mi_remaining = \<lparr>sv_start = 2, sv_length = 0\<rparr>\<rparr>
   \<and> rmatches_derived ''a,,'' \<lparr>sv_start = 0, sv_length = 2\<rparr> (matcher_rfind \<lparr>sv_start = 2, sv_length = 1\<rparr> True)
     \<lparr>mi_matcher = matcher_rfind \<lparr>sv_start = 2, sv_length = 1\<rparr> True, mi_remaining = \<lparr>sv_start = 0, sv_length = 2\<rparr>\<rparr>
   \<and> rmatches_derived ''a,,'' \<lparr>sv_start = 0, sv_length = 2\<rparr> (matcher_rfind \<lparr>sv_start = 2, sv_length = 1\<rparr> True)
     \<lparr>mi_matcher = matcher_rfind \<lparr>sv_start = 2, sv_length = 1\<rparr> True, mi_remaining = \<lparr>sv_start = 0, sv_length = 0\<rparr>\<rparr>
   \<and> splits_derived ''a,,'' \<lparr>sv_start = 0, sv_length = 2\<rparr> (matcher_find \<lparr>sv_start = 2, sv_length = 1\<rparr> True) 0
     (splits_begin ''a,,'' \<lparr>sv_start = 0, sv_length = 2\<rparr> (matcher_find \<lparr>sv_start = 2, sv_length = 1\<rparr> True))
   \<and> splits_derived ''a,,'' \<lparr>sv_start = 0, sv_length = 2\<rparr> (matcher_find \<lparr>sv_start = 2, sv_length = 1\<rparr> True) 0
     (splits_end \<lparr>sv_start = 0, sv_length = 2\<rparr> (matcher_find \<lparr>sv_start = 2, sv_length = 1\<rparr> True) 0)
   \<and> rsplits_derived ''a,,'' \<lparr>sv_start = 0, sv_length = 2\<rparr> (matcher_rfind \<lparr>sv_start = 2, sv_length = 1\<rparr> True) 0
     (rsplits_begin ''a,,'' \<lparr>sv_start = 0, sv_length = 2\<rparr> (matcher_rfind \<lparr>sv_start = 2, sv_length = 1\<rparr> True))
   \<and> rsplits_derived ''a,,'' \<lparr>sv_start = 0, sv_length = 2\<rparr> (matcher_rfind \<lparr>sv_start = 2, sv_length = 1\<rparr> True) 0
     (rsplits_end \<lparr>sv_start = 0, sv_length = 2\<rparr> (matcher_rfind \<lparr>sv_start = 2, sv_length = 1\<rparr> True) 0)
   \<and> (matches_eq \<lparr>mi_matcher = matcher_find \<lparr>sv_start = 2, sv_length = 1\<rparr> True, mi_remaining = \<lparr>sv_start = 1, sv_length = 1\<rparr>\<rparr> \<lparr>mi_matcher = matcher_find \<lparr>sv_start = 2, sv_length = 1\<rparr> True, mi_remaining = \<lparr>sv_start = 2, sv_length = 0\<rparr>\<rparr> \<longleftrightarrow> sv_begin (mi_remaining \<lparr>mi_matcher = matcher_find \<lparr>sv_start = 2, sv_length = 1\<rparr> True, mi_remaining = \<lparr>sv_start = 1, sv_length = 1\<rparr>\<rparr>) = sv_begin (mi_remaining \<lparr>mi_matcher = matcher_find \<lparr>sv_start = 2, sv_length = 1\<rparr> True, mi_remaining = \<lparr>sv_start = 2, sv_length = 0\<rparr>\<rparr>))
   \<and> (rmatches_eq \<lparr>mi_matcher = matcher_rfind \<lparr>sv_start = 2, sv_length = 1\<rparr> True, mi_remaining = \<lparr>sv_start = 0, sv_length = 2\<rparr>\<rparr> \<lparr>mi_matcher = matcher_rfind \<lparr>sv_start = 2, sv_length = 1\<rparr> True, mi_remaining = \<lparr>sv_start = 0, sv_length = 0\<rparr>\<rparr> \<longleftrightarrow> sv_end (mi_remaining \<lparr>mi_matcher = matcher_rfind \<lparr>sv_start = 2, sv_length = 1\<rparr> True, mi_remaining = \<lparr>sv_start = 0, sv_length = 2\<rparr>\<rparr>) = sv_end (mi_remaining \<lparr>mi_matcher = matcher_rfind \<lparr>sv_start = 2, sv_length = 1\<rparr> True, mi_remaining = \<lparr>sv_start = 0, sv_length = 0\<rparr>\<rparr>))
   \<and> (splits_eq (splits_begin ''a,,'' \<lparr>sv_start = 0, sv_length = 2\<rparr> (matcher_find \<lparr>sv_start = 2, sv_length = 1\<rparr> True)) (splits_end \<lparr>sv_start = 0, sv_length = 2\<rparr> (matcher_find \<lparr>sv_start = 2, sv_length = 1\<rparr> True) 0) \<longleftrightarrow> sv_begin (si_remaining (splits_begin ''a,,'' \<lparr>sv_start = 0, sv_length = 2\<rparr> (matcher_find \<lparr>sv_start = 2, sv_length = 1\<rparr> True))) = sv_begin (si_remaining (splits_end \<lparr>sv_start = 0, sv_length = 2\<rparr> (matcher_find \<lparr>sv_start = 2, sv_length = 1\<rparr> True) 0)) \<and> si_reached_tail (splits_begin ''a,,'' \<lparr>sv_start = 0, sv_length = 2\<rparr> (matcher_find \<lparr>sv_start = 2, sv_length = 1\<rparr> True)) = si_reached_tail (splits_end \<lparr>sv_start = 0, sv_length = 2\<rparr> (matcher_find \<lparr>sv_start = 2, sv_length = 1\<rparr> True) 0))
   \<and> (rsplits_eq (rsplits_begin ''a,,'' \<lparr>sv_start = 0, sv_length = 2\<rparr> (matcher_rfind \<lparr>sv_start = 2, sv_length = 1\<rparr> True)) (rsplits_end \<lparr>sv_start = 0, sv_length = 2\<rparr> (matcher_rfind \<lparr>sv_start = 2, sv_length = 1\<rparr> True) 0) \<longleftrightarrow> sv_end (si_remaining (rsplits_begin ''a,,'' \<lparr>sv_start = 0, sv_length = 2\<rparr> (matcher_rfind \<lparr>sv_start = 2, sv_length = 1\<rparr> True))) = sv_end (si_remaining (rsplits_end \<lparr>sv_start = 0, sv_length = 2\<rparr> (matcher_rfind \<lparr>sv_start = 2, sv_length = 1\<rparr> True) 0)) \<and> si_reached_tail (rsplits_begin ''a,,'' \<lparr>sv_start = 0, sv_length = 2\<rparr> (matcher_rfind \<lparr>sv_start = 2, sv_length = 1\<rparr> True)) = si_reached_tail (rsplits_end \<lparr>sv_start = 0, sv_length = 2\<rparr> (matcher_rfind \<lparr>sv_start = 2, sv_length = 1\<rparr> True) 0))
   \<and> \<not> matches_eq \<lparr>mi_matcher = matcher_find \<lparr>sv_start = 2, sv_length = 1\<rparr> True, mi_remaining = \<lparr>sv_start = 1, sv_length = 1\<rparr>\<rparr> \<lparr>mi_matcher = matcher_find \<lparr>sv_start = 2, sv_length = 1\<rparr> True, mi_remaining = \<lparr>sv_start = 2, sv_length = 0\<rparr>\<rparr>
   \<and> \<not> rmatches_eq \<lparr>mi_matcher = matcher_rfind \<lparr>sv_start = 2, sv_length = 1\<rparr> True, mi_remaining = \<lparr>sv_start = 0, sv_length = 2\<rparr>\<rparr> \<lparr>mi_matcher = matcher_rfind \<lparr>sv_start = 2, sv_length = 1\<rparr> True, mi_remaining = \<lparr>sv_start = 0, sv_length = 0\<rparr>\<rparr>
   \<and> \<not> splits_eq (splits_begin ''a,,'' \<lparr>sv_start = 0, sv_length = 2\<rparr> (matcher_find \<lparr>sv_start = 2, sv_length = 1\<rparr> True)) (splits_end \<lparr>sv_start = 0, sv_length = 2\<rparr> (matcher_find \<lparr>sv_start = 2, sv_length = 1\<rparr> True) 0)
   \<and> \<not> rsplits_eq (rsplits_begin ''a,,'' \<lparr>sv_start = 0, sv_length = 2\<rparr> (matcher_rfind \<lparr>sv_start = 2, sv_length = 1\<rparr> True)) (rsplits_end \<lparr>sv_start = 0, sv_length = 2\<rparr> (matcher_rfind \<lparr>sv_start = 2, sv_length = 1\<rparr> True) 0)"
proof -
  have d1: "matches_derived ''a,,'' \<lparr>sv_start = 0, sv_length = 2\<rparr> (matcher_find \<lparr>sv_start = 2, sv_length = 1\<rparr> True)
     \<lparr>mi_matcher = matcher_find \<lparr>sv_start = 2, sv_length = 1\<rparr> True, mi_remaining = \<lparr>sv_start = 1, sv_length = 1\<rparr>\<rparr>"
    by (rule matches_from_begin) (simp add: matches_eval Let_def)
  have d2: "matches_derived ''a,,'' \<lparr>sv_start = 0, sv_length = 2\<rparr> (matcher_find \<lparr>sv_start = 2, sv_length = 1\<rparr> True)
     \<lparr>mi_matcher = matcher_find \<lparr>sv_start = 2, sv_length = 1\<rparr> True, mi_remaining = \<lparr>sv_start = 2, sv_length = 0\<rparr>\<rparr>"
    by (rule matches_from_end) (simp add: matches_eval Let_def)
  have d3: "rmatches_derived ''a,,'' \<lparr>sv_start = 0, sv_length = 2\<rparr> (matcher_rfind \<lparr>sv_start = 2, sv_length = 1\<rparr> True)
     \<lparr>mi_matcher = matcher_rfind \<lparr>sv_start = 2, sv_length = 1\<rparr> True, mi_remaining = \<lparr>sv_start = 0, sv_length = 2\<rparr>\<rparr>"
    by (rule rmatches_from_begin) (simp add: matches_eval Let_def)
  have d4: "rmatches_derived ''a,,'' \<lparr>sv_start = 0, sv_length = 2\<rparr> (matcher_rfind \<lparr>sv_start = 2, sv_length = 1\<rparr> True)
     \<lparr>mi_matcher = matcher_rfind \<lparr>sv_start = 2, sv_length = 1\<rparr> True, mi_remaining = \<lparr>sv_start = 0, sv_length = 0\<rparr>\<rparr>"
    by (rule rmatches_from_end) (simp add: matches_eval Let_def)
  have d5: "splits_derived ''a,,'' \<lparr>sv_start = 0, sv_length = 2\<rparr> (matcher_find \<lparr>sv_start = 2, sv_length = 1\<rparr> True) 0
     (splits_begin ''a,,'' \<lparr>sv_start = 0, sv_length = 2\<rparr> (matcher_find \<lparr>sv_start = 2, sv_length = 1\<rparr> True))"
    by (rule splits_from_begin)
  have d6: "splits_derived ''a,,'' \<lparr>sv_start = 0, sv_length = 2\<rparr> (matcher_find \<lparr>sv_start = 2, sv_length = 1\<rparr> True) 0
     (splits_end \<lparr>sv_start = 0, sv_length = 2\<rparr> (matcher_find \<lparr>sv_start = 2, sv_length = 1\<rparr> True) 0)"
    by (rule splits_from_end)
  have d7: "rsplits_derived ''a,,'' \<lparr>sv_start = 0, sv_length = 2\<rparr> (matcher_rfind \<lparr>sv_start = 2, sv_length = 1\<rparr> True) 0
     (rsplits_begin ''a,,'' \<lparr>sv_start = 0, sv_length = 2\<rparr> (matcher_rfind \<lparr>sv_start = 2, sv_length = 1\<rparr> True))"
    by (rule rsplits_from_begin)
  have d8: "rsplits_derived ''a,,'' \<lparr>sv_start = 0, sv_length = 2\<rparr> (matcher_rfind \<lparr>sv_start = 2, sv_length = 1\<rparr> True) 0
     (rsplits_end \<lparr>sv_start = 0, sv_length = 2\<rparr> (matcher_rfind \<lparr>sv_start = 2, sv_length = 1\<rparr> True) 0)"
    by (rule rsplits_from_end)
  have n: "\<not> matches_eq \<lparr>mi_matcher = matcher_find \<lparr>sv_start = 2, sv_length = 1\<rparr> True, mi_remaining = \<lparr>sv_start = 1, sv_length = 1\<rparr>\<rparr> \<lparr>mi_matcher = matcher_find \<lparr>sv_start = 2, sv_length = 1\<rparr> True, mi_remaining = \<lparr>sv_start = 2, sv_length = 0\<rparr>\<rparr>"
    "\<not> rmatches_eq \<lparr>mi_matcher = matcher_rfind \<lparr>sv_start = 2, sv_length = 1\<rparr> True, mi_remaining = \<lparr>sv_start = 0, sv_length = 2\<rparr>\<rparr> \<lparr>mi_matcher = matcher_rfind \<lparr>sv_start = 2, sv_length = 1\<rparr> True, mi_remaining = \<lparr>sv_start = 0, sv_length = 0\<rparr>\<rparr>"
    "\<not> splits_eq (splits_begin ''a,,'' \<lparr>sv_start = 0, sv_length = 2\<rparr> (matcher_find \<lparr>sv_start = 2, sv_length = 1\<rparr> True)) (splits_end \<lparr>sv_start = 0, sv_length = 2\<rparr> (matcher_find \<lparr>sv_start = 2, sv_length = 1\<rparr> True) 0)"
    "\<not> rsplits_eq (rsplits_begin ''a,,'' \<lparr>sv_start = 0, sv_length = 2\<rparr> (matcher_rfind \<lparr>sv_start = 2, sv_length = 1\<rparr> True)) (rsplits_end \<lparr>sv_start = 0, sv_length = 2\<rparr> (matcher_rfind \<lparr>sv_start = 2, sv_length = 1\<rparr> True) 0)"
    by (simp_all add: matches_eval splits_eval rsplits_begin_def rsplits_end_def rsplits_iterator_def
        Let_def)
  show ?thesis
    using iterator_equality[OF d1 d2 d3 d4 d5 d6 d7 d8] d1 d2 d3 d4 d5 d6 d7 d8 n by blast
qed

section \<open>The owning string\<close>

text \<open>
  \<^verbatim>\<open>basic_string\<close> holds one \<^verbatim>\<open>sz_string_t\<close>, a union of two layouts that
  share the pointer \<^verbatim>\<open>start\<close>: \<^verbatim>\<open>internal\<close> (start, length, and the inline
  buffer \<^verbatim>\<open>chars\<close>) and \<^verbatim>\<open>external\<close> (start, length, space). The string is
  inline exactly when \<^verbatim>\<open>start\<close> is the address of its own \<^verbatim>\<open>chars\<close>. A pointer
  is symbolic: null, the inline buffer of the string object at an address, or a
  heap block. The store maps the address of a string object to its value, and a
  block number to the block's bytes (\<open>None\<close> once freed).
\<close>

datatype ptr = Null | Chars nat | Block nat

record sz_string_t =
  str_start :: ptr
  str_length :: nat
  str_space :: nat
  str_chars :: string

record store =
  strings :: "nat \<Rightarrow> sz_string_t"
  heap :: "string option list"

text \<open>
  Modelled from the spec: the constant \<^verbatim>\<open>SZ_STRING_INTERNAL_SPACE\<close> of
  \<^verbatim>\<open>stringzilla.h\<close> is not among the sources. Spec section 4.7: the inline
  capacity is a small compile-time constant. The source asserts
  \<^verbatim>\<open>sizeof(string) == 4 * sizeof(void *)\<close>; with 8-byte pointers that leaves 23
  bytes after the pointer and the one-byte length.
\<close>

definition SZ_STRING_INTERNAL_SPACE :: nat where
  "SZ_STRING_INTERNAL_SPACE = 23"

text \<open>
  The value \<^verbatim>\<open>sz_string_init\<close> gives the object at address \<open>a\<close>, as the
  default constructor of \<^verbatim>\<open>basic_string\<close> re-implements it, lines 1292-1298:
  \<^verbatim>\<open>start\<close> points to the object's own \<^verbatim>\<open>chars\<close> and every other word is zero.
\<close>

definition sz_string_init :: "nat \<Rightarrow> sz_string_t" where
  "sz_string_init a =
     \<lparr>str_start = Chars a, str_length = 0, str_space = 0,
      str_chars = replicate SZ_STRING_INTERNAL_SPACE (CHR 0x00)\<rparr>"

text \<open>
  Modelled from the spec: \<^verbatim>\<open>sz_string_is_on_stack\<close>, \<^verbatim>\<open>sz_string_unpack\<close>,
  \<^verbatim>\<open>sz_string_range\<close> and \<^verbatim>\<open>sz_string_free\<close> of \<^verbatim>\<open>stringzilla.h\<close> are not
  among the sources. Spec section 3: a string in the inline state has its data
  pointer equal to the address of its own inline buffer, and in the heap state
  the pointer is an allocated block. Unpacking reads start, length, space and
  whether the string is external; the range is start and length; freeing
  releases the heap allocation and is a no-op for an inline string.
\<close>

definition sz_string_is_on_stack :: "store \<Rightarrow> nat \<Rightarrow> bool" where
  "sz_string_is_on_stack \<sigma> a = (str_start (strings \<sigma> a) = Chars a)"

definition sz_string_unpack :: "store \<Rightarrow> nat \<Rightarrow> ptr \<times> nat \<times> nat \<times> bool" where
  "sz_string_unpack \<sigma> a =
     (str_start (strings \<sigma> a), str_length (strings \<sigma> a),
      (if sz_string_is_on_stack \<sigma> a then SZ_STRING_INTERNAL_SPACE else str_space (strings \<sigma> a)),
      \<not> sz_string_is_on_stack \<sigma> a)"

definition sz_string_range :: "store \<Rightarrow> nat \<Rightarrow> ptr \<times> nat" where
  "sz_string_range \<sigma> a = (str_start (strings \<sigma> a), str_length (strings \<sigma> a))"

definition sz_string_free :: "store \<Rightarrow> nat \<Rightarrow> store" where
  "sz_string_free \<sigma> a =
     (if sz_string_is_on_stack \<sigma> a then \<sigma>
      else (case str_start (strings \<sigma> a) of
              Block k \<Rightarrow> \<sigma>\<lparr>heap := (heap \<sigma>)[k := None]\<rparr>
            | _ \<Rightarrow> \<sigma>))"

text \<open>Reading \<open>n\<close> bytes through a pointer; \<open>None\<close> when the memory is not there.\<close>

definition read_bytes :: "store \<Rightarrow> ptr \<Rightarrow> nat \<Rightarrow> string option" where
  "read_bytes \<sigma> p n =
     (case p of
        Null \<Rightarrow> None
      | Chars b \<Rightarrow>
          if n \<le> length (str_chars (strings \<sigma> b)) then Some (take n (str_chars (strings \<sigma> b)))
          else None
      | Block k \<Rightarrow>
          if k < length (heap \<sigma>)
          then (case heap \<sigma> ! k of
                  Some buf \<Rightarrow> if n \<le> length buf then Some (take n buf) else None
                | None \<Rightarrow> None)
          else None)"

text \<open>
  \<^verbatim>\<open>view()\<close> is the view \<^verbatim>\<open>{string_start, string_length}\<close> that
  \<^verbatim>\<open>sz_string_range\<close> reports; these are the bytes it denotes, and \<^verbatim>\<open>size()\<close>
  is its length.
\<close>

definition string_bytes :: "store \<Rightarrow> nat \<Rightarrow> string option" where
  "string_bytes \<sigma> a = (case sz_string_range \<sigma> a of (start, n) \<Rightarrow> read_bytes \<sigma> start n)"

definition string_size :: "store \<Rightarrow> nat \<Rightarrow> nat" where
  "string_size \<sigma> a = snd (sz_string_range \<sigma> a)"

definition is_internal :: "store \<Rightarrow> nat \<Rightarrow> bool" where
  "is_internal \<sigma> a = sz_string_is_on_stack \<sigma> a"

text \<open>
  \<^verbatim>\<open>move(basic_string &other)\<close>, lines 1255-1269: unpack \<^verbatim>\<open>other\<close>, copy its
  value bitwise, point \<^verbatim>\<open>start\<close> to the own \<^verbatim>\<open>chars\<close> unless the string is
  external, and initialise \<^verbatim>\<open>other\<close>.
\<close>

definition move :: "nat \<Rightarrow> nat \<Rightarrow> store \<Rightarrow> store" where
  "move this other \<sigma> =
     (case sz_string_unpack \<sigma> other of
        (string_start, string_length, string_space, string_is_external) \<Rightarrow>
          (let \<sigma>1 = \<sigma>\<lparr>strings := (strings \<sigma>)(this := strings \<sigma> other)\<rparr>;
               \<sigma>2 = \<sigma>1\<lparr>strings := (strings \<sigma>1)
                        (this := (strings \<sigma>1 this)
                           \<lparr>str_start := (if string_is_external then str_start (strings \<sigma>1 this)
                                          else Chars this)\<rparr>)\<rparr>
           in \<sigma>2\<lparr>strings := (strings \<sigma>2)(other := sz_string_init other)\<rparr>))"

text \<open>The move constructor and the move assignment, lines 1307-1317.\<close>

definition move_construct :: "nat \<Rightarrow> nat \<Rightarrow> store \<Rightarrow> store" where
  "move_construct this other \<sigma> = move this other \<sigma>"

definition move_assign :: "nat \<Rightarrow> nat \<Rightarrow> store \<Rightarrow> store" where
  "move_assign this other \<sigma> =
     move this other (if \<not> is_internal \<sigma> this then sz_string_free \<sigma> this else \<sigma>)"

text \<open>
  A constructed string: inline with its length inside the buffer, or external
  with a live block that holds its length.
\<close>

definition string_ok :: "store \<Rightarrow> nat \<Rightarrow> bool" where
  "string_ok \<sigma> a =
     (case str_start (strings \<sigma> a) of
        Null \<Rightarrow> False
      | Chars b \<Rightarrow> b = a \<and> str_length (strings \<sigma> a) \<le> length (str_chars (strings \<sigma> a))
      | Block k \<Rightarrow>
          k < length (heap \<sigma>)
          \<and> (case heap \<sigma> ! k of
                Some buf \<Rightarrow> str_length (strings \<sigma> a) \<le> length buf
              | None \<Rightarrow> False))"

subsection \<open>Move\<close>

lemma string_ok_bytes:
  "string_ok \<sigma> a \<Longrightarrow> \<exists>bs. string_bytes \<sigma> a = Some bs"
  by (auto simp: string_ok_def string_bytes_def sz_string_range_def read_bytes_def
      split: ptr.splits option.splits)

lemma move_bytes:
  assumes "this \<noteq> other" and "string_ok \<sigma> other"
  shows "string_bytes (move this other \<sigma>) this = string_bytes \<sigma> other"
  using assms
  by (auto simp: move_def sz_string_unpack_def sz_string_is_on_stack_def string_ok_def
      string_bytes_def sz_string_range_def read_bytes_def Let_def split: ptr.splits option.splits)

lemma move_resets_source:
  "strings (move this other \<sigma>) other = sz_string_init other"
  by (simp add: move_def sz_string_unpack_def Let_def)

lemma move_source_empty:
  "sz_string_is_on_stack (move this other \<sigma>) other"
  "string_bytes (move this other \<sigma>) other = Some []"
  "string_size (move this other \<sigma>) other = 0"
  by (simp_all add: move_resets_source sz_string_init_def sz_string_is_on_stack_def
      string_bytes_def string_size_def sz_string_range_def read_bytes_def)

lemma move_start:
  assumes "this \<noteq> other"
  shows "str_start (strings (move this other \<sigma>) this)
         = (if sz_string_is_on_stack \<sigma> other then Chars this else str_start (strings \<sigma> other))"
  using assms by (simp add: move_def sz_string_unpack_def Let_def)

lemma free_keeps_other:
  assumes "str_start (strings \<sigma> this) \<noteq> str_start (strings \<sigma> other)"
  shows "string_ok \<sigma> other \<Longrightarrow> string_ok (sz_string_free \<sigma> this) other"
    and "string_bytes (sz_string_free \<sigma> this) other = string_bytes \<sigma> other"
    and "strings (sz_string_free \<sigma> this) = strings \<sigma>"
  using assms
  by (auto simp: sz_string_free_def string_ok_def string_bytes_def sz_string_range_def
      read_bytes_def nth_list_update split: ptr.splits option.splits)

text \<open>
  C1. Let \<open>other\<close> be a constructed string, inline or on the heap, and \<open>this\<close>
  another object. After the move constructor, \<open>this\<close> holds the bytes
  \<open>other\<close> held, \<open>other\<close> is inline (its pointer is the address of its own
  buffer) and holds no byte, its size being 0, and the data pointer
  of \<open>this\<close> is the address of its own inline buffer when \<open>other\<close> was inline
  and the heap pointer of \<open>other\<close> when it was not. The same holds after the
  move assignment, where \<open>this\<close> was a string with a buffer of its own.
\<close>

theorem move_transfers:
  assumes "this \<noteq> other" and "string_ok \<sigma> other"
  shows "string_bytes \<sigma> other \<noteq> None
       \<and> string_bytes (move_construct this other \<sigma>) this = string_bytes \<sigma> other
       \<and> sz_string_is_on_stack (move_construct this other \<sigma>) other
       \<and> string_bytes (move_construct this other \<sigma>) other = Some []
       \<and> string_size (move_construct this other \<sigma>) other = 0
       \<and> (sz_string_is_on_stack \<sigma> other \<longrightarrow>
            str_start (strings (move_construct this other \<sigma>) this) = Chars this)
       \<and> (\<not> sz_string_is_on_stack \<sigma> other \<longrightarrow>
            str_start (strings (move_construct this other \<sigma>) this) = str_start (strings \<sigma> other))
       \<and> (str_start (strings \<sigma> this) \<noteq> str_start (strings \<sigma> other) \<longrightarrow>
            string_bytes (move_assign this other \<sigma>) this = string_bytes \<sigma> other
            \<and> sz_string_is_on_stack (move_assign this other \<sigma>) other
            \<and> string_bytes (move_assign this other \<sigma>) other = Some []
            \<and> string_size (move_assign this other \<sigma>) other = 0
            \<and> (sz_string_is_on_stack \<sigma> other \<longrightarrow>
                 str_start (strings (move_assign this other \<sigma>) this) = Chars this)
            \<and> (\<not> sz_string_is_on_stack \<sigma> other \<longrightarrow>
                 str_start (strings (move_assign this other \<sigma>) this)
                   = str_start (strings \<sigma> other)))"
proof -
  have c: "string_bytes \<sigma> other \<noteq> None" using string_ok_bytes[OF assms(2)] by auto
  have a: "string_bytes (move_assign this other \<sigma>) this = string_bytes \<sigma> other
            \<and> sz_string_is_on_stack (move_assign this other \<sigma>) other
            \<and> string_bytes (move_assign this other \<sigma>) other = Some []
            \<and> string_size (move_assign this other \<sigma>) other = 0
            \<and> (sz_string_is_on_stack \<sigma> other \<longrightarrow>
                 str_start (strings (move_assign this other \<sigma>) this) = Chars this)
            \<and> (\<not> sz_string_is_on_stack \<sigma> other \<longrightarrow>
                 str_start (strings (move_assign this other \<sigma>) this)
                   = str_start (strings \<sigma> other))"
    if ne: "str_start (strings \<sigma> this) \<noteq> str_start (strings \<sigma> other)"
  proof (cases "is_internal \<sigma> this")
    case True
    then show ?thesis
      using move_bytes[OF assms] move_start[OF assms(1), of \<sigma>]
      by (simp add: move_assign_def move_source_empty)
  next
    case False
    let ?\<sigma> = "sz_string_free \<sigma> this"
    note f = free_keeps_other[OF ne]
    have "sz_string_is_on_stack ?\<sigma> other = sz_string_is_on_stack \<sigma> other"
      by (simp add: sz_string_is_on_stack_def f(3))
    then show ?thesis
      using False move_bytes[OF assms(1) f(1)[OF assms(2)]] move_start[OF assms(1), of ?\<sigma>] f(2,3)
      by (simp add: move_assign_def move_source_empty)
  qed
  show ?thesis
    using c a move_bytes[OF assms] move_start[OF assms(1), of \<sigma>]
    by (simp add: move_construct_def move_source_empty)
qed


theorem move_transfers_witness:
  "(0::nat) \<noteq> 1
   \<and> string_ok
     \<lparr>strings = (\<lambda>a. sz_string_init a)
        (1 := \<lparr>str_start = Chars 1, str_length = 2, str_space = 0,
                str_chars = ''hi'' @ replicate 21 (CHR 0x00)\<rparr>),
      heap = []\<rparr> 1
   \<and> sz_string_is_on_stack
     \<lparr>strings = (\<lambda>a. sz_string_init a)
        (1 := \<lparr>str_start = Chars 1, str_length = 2, str_space = 0,
                str_chars = ''hi'' @ replicate 21 (CHR 0x00)\<rparr>),
      heap = []\<rparr> 1
   \<and> string_bytes (move_construct 0 1
     \<lparr>strings = (\<lambda>a. sz_string_init a)
        (1 := \<lparr>str_start = Chars 1, str_length = 2, str_space = 0,
                str_chars = ''hi'' @ replicate 21 (CHR 0x00)\<rparr>),
      heap = []\<rparr>) 0 = Some ''hi''
   \<and> str_start (strings (move_construct 0 1
     \<lparr>strings = (\<lambda>a. sz_string_init a)
        (1 := \<lparr>str_start = Chars 1, str_length = 2, str_space = 0,
                str_chars = ''hi'' @ replicate 21 (CHR 0x00)\<rparr>),
      heap = []\<rparr>) 0) = Chars 0
   \<and> sz_string_is_on_stack (move_construct 0 1
     \<lparr>strings = (\<lambda>a. sz_string_init a)
        (1 := \<lparr>str_start = Chars 1, str_length = 2, str_space = 0,
                str_chars = ''hi'' @ replicate 21 (CHR 0x00)\<rparr>),
      heap = []\<rparr>) 1
   \<and> str_start (strings (move_construct 0 1
     \<lparr>strings = (\<lambda>a. sz_string_init a)
        (1 := \<lparr>str_start = Chars 1, str_length = 2, str_space = 0,
                str_chars = ''hi'' @ replicate 21 (CHR 0x00)\<rparr>),
      heap = []\<rparr>) 1) = Chars 1
   \<and> string_bytes (move_construct 0 1
     \<lparr>strings = (\<lambda>a. sz_string_init a)
        (1 := \<lparr>str_start = Chars 1, str_length = 2, str_space = 0,
                str_chars = ''hi'' @ replicate 21 (CHR 0x00)\<rparr>),
      heap = []\<rparr>) 1 = Some []
   \<and> string_size (move_construct 0 1
     \<lparr>strings = (\<lambda>a. sz_string_init a)
        (1 := \<lparr>str_start = Chars 1, str_length = 2, str_space = 0,
                str_chars = ''hi'' @ replicate 21 (CHR 0x00)\<rparr>),
      heap = []\<rparr>) 1 = 0
   \<and> string_ok
     \<lparr>strings = (\<lambda>a. sz_string_init a)
        (1 := \<lparr>str_start = Block 0, str_length = 4, str_space = 8,
                str_chars = replicate 23 (CHR 0x00)\<rparr>),
      heap = [Some (''heap'' @ replicate 4 (CHR 0x00))]\<rparr> 1
   \<and> \<not> sz_string_is_on_stack
     \<lparr>strings = (\<lambda>a. sz_string_init a)
        (1 := \<lparr>str_start = Block 0, str_length = 4, str_space = 8,
                str_chars = replicate 23 (CHR 0x00)\<rparr>),
      heap = [Some (''heap'' @ replicate 4 (CHR 0x00))]\<rparr> 1
   \<and> string_bytes (move_assign 0 1
     \<lparr>strings = (\<lambda>a. sz_string_init a)
        (1 := \<lparr>str_start = Block 0, str_length = 4, str_space = 8,
                str_chars = replicate 23 (CHR 0x00)\<rparr>),
      heap = [Some (''heap'' @ replicate 4 (CHR 0x00))]\<rparr>) 0 = Some ''heap''
   \<and> str_start (strings (move_assign 0 1
     \<lparr>strings = (\<lambda>a. sz_string_init a)
        (1 := \<lparr>str_start = Block 0, str_length = 4, str_space = 8,
                str_chars = replicate 23 (CHR 0x00)\<rparr>),
      heap = [Some (''heap'' @ replicate 4 (CHR 0x00))]\<rparr>) 0) = Block 0
   \<and> sz_string_is_on_stack (move_assign 0 1
     \<lparr>strings = (\<lambda>a. sz_string_init a)
        (1 := \<lparr>str_start = Block 0, str_length = 4, str_space = 8,
                str_chars = replicate 23 (CHR 0x00)\<rparr>),
      heap = [Some (''heap'' @ replicate 4 (CHR 0x00))]\<rparr>) 1
   \<and> str_start (strings (move_assign 0 1
     \<lparr>strings = (\<lambda>a. sz_string_init a)
        (1 := \<lparr>str_start = Block 0, str_length = 4, str_space = 8,
                str_chars = replicate 23 (CHR 0x00)\<rparr>),
      heap = [Some (''heap'' @ replicate 4 (CHR 0x00))]\<rparr>) 1) = Chars 1
   \<and> string_bytes (move_assign 0 1
     \<lparr>strings = (\<lambda>a. sz_string_init a)
        (1 := \<lparr>str_start = Block 0, str_length = 4, str_space = 8,
                str_chars = replicate 23 (CHR 0x00)\<rparr>),
      heap = [Some (''heap'' @ replicate 4 (CHR 0x00))]\<rparr>) 1 = Some []
   \<and> string_size (move_assign 0 1
     \<lparr>strings = (\<lambda>a. sz_string_init a)
        (1 := \<lparr>str_start = Block 0, str_length = 4, str_space = 8,
                str_chars = replicate 23 (CHR 0x00)\<rparr>),
      heap = [Some (''heap'' @ replicate 4 (CHR 0x00))]\<rparr>) 1 = 0"
proof -
  have ne: "(0::nat) \<noteq> 1" by simp
  have ok1: "string_ok
     \<lparr>strings = (\<lambda>a. sz_string_init a)
        (1 := \<lparr>str_start = Chars 1, str_length = 2, str_space = 0,
                str_chars = ''hi'' @ replicate 21 (CHR 0x00)\<rparr>),
      heap = []\<rparr> 1"
    by (simp add: string_ok_def)
  have on1: "sz_string_is_on_stack
     \<lparr>strings = (\<lambda>a. sz_string_init a)
        (1 := \<lparr>str_start = Chars 1, str_length = 2, str_space = 0,
                str_chars = ''hi'' @ replicate 21 (CHR 0x00)\<rparr>),
      heap = []\<rparr> 1"
    by (simp add: sz_string_is_on_stack_def)
  have b1: "string_bytes
     \<lparr>strings = (\<lambda>a. sz_string_init a)
        (1 := \<lparr>str_start = Chars 1, str_length = 2, str_space = 0,
                str_chars = ''hi'' @ replicate 21 (CHR 0x00)\<rparr>),
      heap = []\<rparr> 1 = Some ''hi''"
    by (simp add: string_bytes_def sz_string_range_def read_bytes_def)
  have ok2: "string_ok
     \<lparr>strings = (\<lambda>a. sz_string_init a)
        (1 := \<lparr>str_start = Block 0, str_length = 4, str_space = 8,
                str_chars = replicate 23 (CHR 0x00)\<rparr>),
      heap = [Some (''heap'' @ replicate 4 (CHR 0x00))]\<rparr> 1"
    by (simp add: string_ok_def)
  have on2: "\<not> sz_string_is_on_stack
     \<lparr>strings = (\<lambda>a. sz_string_init a)
        (1 := \<lparr>str_start = Block 0, str_length = 4, str_space = 8,
                str_chars = replicate 23 (CHR 0x00)\<rparr>),
      heap = [Some (''heap'' @ replicate 4 (CHR 0x00))]\<rparr> 1"
    by (simp add: sz_string_is_on_stack_def)
  have b2: "string_bytes
     \<lparr>strings = (\<lambda>a. sz_string_init a)
        (1 := \<lparr>str_start = Block 0, str_length = 4, str_space = 8,
                str_chars = replicate 23 (CHR 0x00)\<rparr>),
      heap = [Some (''heap'' @ replicate 4 (CHR 0x00))]\<rparr> 1 = Some ''heap''"
    by (simp add: string_bytes_def sz_string_range_def read_bytes_def)
  have s2: "str_start (strings
     \<lparr>strings = (\<lambda>a. sz_string_init a)
        (1 := \<lparr>str_start = Block 0, str_length = 4, str_space = 8,
                str_chars = replicate 23 (CHR 0x00)\<rparr>),
      heap = [Some (''heap'' @ replicate 4 (CHR 0x00))]\<rparr> 0) \<noteq> str_start (strings
     \<lparr>strings = (\<lambda>a. sz_string_init a)
        (1 := \<lparr>str_start = Block 0, str_length = 4, str_space = 8,
                str_chars = replicate 23 (CHR 0x00)\<rparr>),
      heap = [Some (''heap'' @ replicate 4 (CHR 0x00))]\<rparr> 1)"
    by (simp add: sz_string_init_def)
  show ?thesis
    using move_transfers[OF ne ok1] move_transfers[OF ne ok2] ne ok1 on1 b1 ok2 on2 b2 s2
    by (simp add: sz_string_is_on_stack_def)
qed

subsection \<open>Append\<close>

text \<open>
  Writing bytes at an offset from a pointer, as \<^verbatim>\<open>sz_copy(start + off, ...)\<close> and
  \<^verbatim>\<open>start[off] = c\<close> do; \<open>None\<close> is a write outside the buffer the pointer
  points into.
\<close>

definition write_bytes :: "store \<Rightarrow> ptr \<Rightarrow> nat \<Rightarrow> string \<Rightarrow> store option" where
  "write_bytes \<sigma> p off bs =
     (case p of
        Null \<Rightarrow> None
      | Chars b \<Rightarrow>
          (let cs = str_chars (strings \<sigma> b) in
           if off + length bs \<le> length cs
           then Some (\<sigma>\<lparr>strings := (strings \<sigma>)
                        (b := (strings \<sigma> b)
                           \<lparr>str_chars := take off cs @ bs @ drop (off + length bs) cs\<rparr>)\<rparr>)
           else None)
      | Block k \<Rightarrow>
          if k < length (heap \<sigma>)
          then (case heap \<sigma> ! k of
                  Some buf \<Rightarrow>
                    if off + length bs \<le> length buf
                    then Some (\<sigma>\<lparr>heap := (heap \<sigma>)
                                 [k := Some (take off buf @ bs @ drop (off + length bs) buf)]\<rparr>)
                    else None
                | None \<Rightarrow> None)
          else None)"

text \<open>
  Modelled from the spec: \<^verbatim>\<open>sz_string_expand\<close> of \<^verbatim>\<open>stringzilla.h\<close> is not
  among the sources. Spec section 4.7: growth adds the required amount to the
  length, in place while the capacity suffices (one byte is kept for the
  terminating zero), and in a new heap block otherwise; the allocator may grant
  more than is needed, and when it fails the operation fails. Section 6: the
  allocator returns a pointer or null. The function returns the new start
  pointer, or null on failure. The allocator is the argument \<open>alloc\<close>: the
  space it grants for a requested size, or \<open>None\<close>. The offset argument of the
  source is \<^verbatim>\<open>sz_size_max\<close> in every call, which is growth at the end.
\<close>

definition sz_string_expand ::
  "(nat \<Rightarrow> nat option) \<Rightarrow> store \<Rightarrow> nat \<Rightarrow> nat \<Rightarrow> store \<times> ptr" where
  "sz_string_expand alloc \<sigma> a added_length =
     (case sz_string_unpack \<sigma> a of
        (string_start, string_length, string_space, string_is_external) \<Rightarrow>
          (let n = string_length + added_length in
           if n < string_space
           then (case write_bytes \<sigma> string_start n [CHR 0x00] of
                   None \<Rightarrow> (\<sigma>, Null)
                 | Some \<sigma>1 \<Rightarrow>
                     (\<sigma>1\<lparr>strings := (strings \<sigma>1)(a := (strings \<sigma>1 a)\<lparr>str_length := n\<rparr>)\<rparr>,
                      string_start))
           else (case alloc (n + 1) of
                   None \<Rightarrow> (\<sigma>, Null)
                 | Some new_space \<Rightarrow>
                     (case read_bytes \<sigma> string_start string_length of
                        None \<Rightarrow> (\<sigma>, Null)
                      | Some old \<Rightarrow>
                          (let \<sigma>1 = sz_string_free \<sigma> a;
                               k = length (heap \<sigma>1)
                           in (\<sigma>1\<lparr>heap := heap \<sigma>1
                                      @ [Some (old @ replicate (new_space - string_length) (CHR 0x00))],
                                   strings := (strings \<sigma>1)
                                      (a := (strings \<sigma>1 a)
                                         \<lparr>str_start := Block k, str_length := n,
                                          str_space := new_space\<rparr>)\<rparr>,
                               Block k))))))"

text \<open>
  \<^verbatim>\<open>try_push_back(char c)\<close>, lines 1955-1963, and
  \<^verbatim>\<open>try_append(const_pointer str, size_type length)\<close>, lines 1965-1973. Both
  call \<^verbatim>\<open>sz_string_expand(&string_, sz_size_max, 1, &alloc)\<close>; the first then
  stores \<^verbatim>\<open>c\<close> at \<^verbatim>\<open>start[size() - 1]\<close>, the second copies the \<^verbatim>\<open>length\<close>
  bytes of \<^verbatim>\<open>str\<close> to \<^verbatim>\<open>start + size() - 1\<close>. The result is the store and the
  returned flag; \<open>None\<close> is a write outside the buffer.
\<close>

definition try_push_back ::
  "(nat \<Rightarrow> nat option) \<Rightarrow> store \<Rightarrow> nat \<Rightarrow> char \<Rightarrow> (store \<times> bool) option" where
  "try_push_back alloc \<sigma> a c =
     (case sz_string_expand alloc \<sigma> a 1 of
        (\<sigma>1, start) \<Rightarrow>
          if start = Null then Some (\<sigma>1, False)
          else map_option (\<lambda>\<sigma>2. (\<sigma>2, True))
                 (write_bytes \<sigma>1 start (string_size \<sigma>1 a - 1) [c]))"

definition try_append ::
  "(nat \<Rightarrow> nat option) \<Rightarrow> store \<Rightarrow> nat \<Rightarrow> string \<Rightarrow> (store \<times> bool) option" where
  "try_append alloc \<sigma> a str =
     (case sz_string_expand alloc \<sigma> a 1 of
        (\<sigma>1, start) \<Rightarrow>
          if start = Null then Some (\<sigma>1, False)
          else map_option (\<lambda>\<sigma>2. (\<sigma>2, True))
                 (write_bytes \<sigma>1 start (string_size \<sigma>1 a - 1) str))"

text \<open>
  \<^verbatim>\<open>append\<close> (here \<open>append_view\<close>) and \<^verbatim>\<open>push_back\<close> throw
  \<^verbatim>\<open>std::bad_alloc\<close> when the \<^verbatim>\<open>try_\<close> function returns false.
\<close>

datatype error = Bad_alloc

definition append_view ::
  "(nat \<Rightarrow> nat option) \<Rightarrow> store \<Rightarrow> nat \<Rightarrow> string \<Rightarrow> (error + store) option" where
  "append_view alloc \<sigma> a other =
     map_option (\<lambda>(\<sigma>1, ok). if \<not> ok then Inl Bad_alloc else Inr \<sigma>1) (try_append alloc \<sigma> a other)"

definition push_back ::
  "(nat \<Rightarrow> nat option) \<Rightarrow> store \<Rightarrow> nat \<Rightarrow> char \<Rightarrow> (error + store) option" where
  "push_back alloc \<sigma> a c =
     map_option (\<lambda>(\<sigma>1, ok). if \<not> ok then Inl Bad_alloc else Inr \<sigma>1) (try_push_back alloc \<sigma> a c)"

lemmas string_eval = try_push_back_def try_append_def sz_string_expand_def sz_string_unpack_def
  sz_string_is_on_stack_def sz_string_range_def string_size_def string_bytes_def read_bytes_def
  write_bytes_def sz_string_init_def SZ_STRING_INTERNAL_SPACE_def Let_def

text \<open>
  While the new length fits the inline buffer, \<^verbatim>\<open>try_push_back\<close> appends its
  byte, and \<^verbatim>\<open>try_append\<close> of a non-empty \<^verbatim>\<open>str\<close> appends the first byte of
  \<^verbatim>\<open>str\<close> alone.
\<close>

lemma try_push_back_inline:
  assumes "sz_string_is_on_stack \<sigma> a"
    and "length (str_chars (strings \<sigma> a)) = SZ_STRING_INTERNAL_SPACE"
    and "str_length (strings \<sigma> a) + 1 < SZ_STRING_INTERNAL_SPACE"
    and "string_bytes \<sigma> a = Some bs"
  shows "\<exists>\<sigma>1. try_push_back alloc \<sigma> a c = Some (\<sigma>1, True)
              \<and> string_bytes \<sigma>1 a = Some (bs @ [c])
              \<and> string_size \<sigma>1 a = length bs + 1"
proof -
  let ?s = "strings \<sigma> a" and ?n = "str_length (strings \<sigma> a)"
  have st: "str_start ?s = Chars a" using assms(1) by (simp add: sz_string_is_on_stack_def)
  have bs: "bs = take ?n (str_chars ?s)"
    using assms(2,3,4) st
    by (auto simp: string_bytes_def sz_string_range_def read_bytes_def split: if_splits)
  have len: "length bs = ?n" using assms(2,3) by (simp add: bs)
  show ?thesis
    using assms(1,2,3) st len
    by (simp add: try_push_back_def sz_string_expand_def sz_string_unpack_def
        sz_string_range_def string_size_def string_bytes_def read_bytes_def write_bytes_def
        Let_def bs min_def take_Suc_conv_app_nth nth_append)
qed

lemma try_append_inline:
  assumes "sz_string_is_on_stack \<sigma> a"
    and "length (str_chars (strings \<sigma> a)) = SZ_STRING_INTERNAL_SPACE"
    and "str_length (strings \<sigma> a) + length str < SZ_STRING_INTERNAL_SPACE"
    and "string_bytes \<sigma> a = Some bs" and "str \<noteq> []"
  shows "\<exists>\<sigma>1. try_append alloc \<sigma> a str = Some (\<sigma>1, True)
              \<and> string_bytes \<sigma>1 a = Some (bs @ [hd str])
              \<and> string_size \<sigma>1 a = length bs + 1"
proof -
  let ?s = "strings \<sigma> a" and ?n = "str_length (strings \<sigma> a)"
  obtain c cs where str: "str = c # cs" using assms(5) by (cases str) auto
  have st: "str_start ?s = Chars a" using assms(1) by (simp add: sz_string_is_on_stack_def)
  have bs: "bs = take ?n (str_chars ?s)"
    using assms(2,3,4) st
    by (auto simp: string_bytes_def sz_string_range_def read_bytes_def split: if_splits)
  have len: "length bs = ?n" using assms(2,3) by (simp add: bs)
  show ?thesis
    using assms(1,2,3) st len
    by (simp add: try_append_def sz_string_expand_def sz_string_unpack_def
        sz_string_range_def string_size_def string_bytes_def read_bytes_def write_bytes_def
        Let_def bs min_def str)
qed

text \<open>
  C2. The claim: a successful \<^verbatim>\<open>append(v)\<close> leaves the string holding its
  former bytes followed by the bytes of \<^verbatim>\<open>v\<close>, and \<^verbatim>\<open>push_back(c)\<close> appends
  \<^verbatim>\<open>c\<close>. The code grows the string by one byte in both functions. From the
  empty string, two calls of \<^verbatim>\<open>try_push_back\<close> give \<^verbatim>\<open>"ab"\<close>; then
  \<^verbatim>\<open>try_append("cd")\<close> returns true and leaves \<^verbatim>\<open>"abc"\<close>, of size 3, where
  the claim has \<^verbatim>\<open>"abcd"\<close>, of size 4.
\<close>

theorem try_append_grows_by_one:
  "\<forall>alloc. \<exists>\<sigma>1 \<sigma>2 \<sigma>3.
     try_push_back alloc \<lparr>strings = sz_string_init, heap = []\<rparr> 0 CHR ''a'' = Some (\<sigma>1, True)
     \<and> try_push_back alloc \<sigma>1 0 CHR ''b'' = Some (\<sigma>2, True)
     \<and> string_bytes \<sigma>2 0 = Some ''ab''
     \<and> try_append alloc \<sigma>2 0 ''cd'' = Some (\<sigma>3, True)
     \<and> string_bytes \<sigma>3 0 = Some ''abc''
     \<and> string_size \<sigma>3 0 = 3"
  by (simp add: string_eval)



end
